theory Spec2Isabelle
  imports Complex_Main "HOL-Library.Sublist" "HOL-Library.Multiset"
begin

section \<open>Python values used by the pipeline\<close>

subsection \<open>List slicing\<close>

text \<open>
  Python's \<^verbatim>\<open>xs[:k]\<close> for an integer \<open>k\<close>: the first \<open>k\<close> elements when \<open>k\<close> is not
  negative, and all but the last \<open>-k\<close> elements when it is.
\<close>

definition py_take :: "int \<Rightarrow> 'a list \<Rightarrow> 'a list" where
  "py_take k xs = (if k < 0 then take (length xs - nat (- k)) xs else take (nat k) xs)"

subsection \<open>Floating point numbers\<close>

text \<open>
  A finite, non-negative Python float is a binary64 number: a pair \<open>(m, e)\<close> stands for
  the value \<open>m * 2 ^ e\<close>. \<open>fl_round\<close> rounds an exact dyadic value to 53 significant bits,
  ties to even, as every IEEE operation does (the exponent range is not bounded here:
  overflow to infinity and gradual underflow are outside the model). \<open>fl_of_nat\<close> is
  the conversion of an integer operand, \<open>fl_mul\<close> the product, and \<open>fl_int\<close> is
  Python's \<^verbatim>\<open>int(x)\<close>, truncation towards zero.
\<close>

type_synonym pyfloat = "nat \<times> int"


fun bitlen :: "nat \<Rightarrow> nat" where
  "bitlen n = (if n = 0 then 0 else Suc (bitlen (n div 2)))"

definition fl_round :: "pyfloat \<Rightarrow> pyfloat" where
  "fl_round f =
     (let m = fst f; e = snd f in
      if bitlen m \<le> 53 then (m, e)
      else
        let s = bitlen m - 53;
            q = m div 2 ^ s;
            r = m mod 2 ^ s;
            half = 2 ^ (s - 1)
        in (if r > half \<or> (r = half \<and> odd q) then q + 1 else q, e + int s))"

definition fl_of_nat :: "nat \<Rightarrow> pyfloat" where
  "fl_of_nat n = fl_round (n, 0)"

definition fl_mul :: "pyfloat \<Rightarrow> pyfloat \<Rightarrow> pyfloat" where
  "fl_mul x y = fl_round (fst x * fst y, snd x + snd y)"

definition fl_int :: "pyfloat \<Rightarrow> int" where
  "fl_int f = (if 0 \<le> snd f then int (fst f) * 2 ^ nat (snd f)
               else int (fst f) div 2 ^ nat (- snd f))"





section \<open>SentenceRanker (\<^verbatim>\<open>sentence_ranker.py\<close>)\<close>

text \<open>
  The score vector of \<^verbatim>\<open>rank_sentences\<close> is computed by numpy, scikit-learn and
  networkx; it is a parameter here: \<open>scores i\<close> is the entry \<^verbatim>\<open>scores[i]\<close>.
  \<^verbatim>\<open>ranked.sort(key=lambda x: x[1], reverse=True)\<close> is a stable sort by descending score;
  \<open>sort_key\<close> is a stable insertion sort, so sorting by the negated score is the same list.
\<close>

definition rank_sentences :: "(nat \<Rightarrow> real) \<Rightarrow> string list \<Rightarrow> (nat \<times> real \<times> string) list" where
  "rank_sentences scores sentences =
     (if sentences = [] then []
      else sort_key (\<lambda>x. - fst (snd x))
             (map (\<lambda>i. (i, scores i, sentences ! i)) [0..<length sentences]))"

definition get_top_sentences ::
  "(nat \<Rightarrow> real) \<Rightarrow> string list \<Rightarrow> int option \<Rightarrow> pyfloat \<Rightarrow> string list" where
  "get_top_sentences scores sentences top_n top_percent =
     (if sentences = [] then []
      else
        let ranked = rank_sentences scores sentences;
            top_n' = (case top_n of
                        None \<Rightarrow> max 3 (fl_int (fl_mul (fl_of_nat (length sentences)) top_percent))
                      | Some k \<Rightarrow> k);
            top_indices = sort (map fst (py_take top_n' ranked))
        in map (\<lambda>i. sentences ! i) top_indices)"



section \<open>Summarizer (\<^verbatim>\<open>summarizer.py\<close>)\<close>

text \<open>\<^verbatim>\<open>sep.join(xs)\<close>.\<close>

fun py_join :: "string \<Rightarrow> string list \<Rightarrow> string" where
  "py_join sep [] = []"
| "py_join sep [x] = x"
| "py_join sep (x # y # ys) = x @ sep @ py_join sep (y # ys)"






section \<open>Python strings\<close>

text \<open>
  A Python string is a sequence of Unicode code points. The model covers the code points
  below 256: one \<open>char\<close> for each, \<open>py_ord c\<close> its number. The character classes are
  those of the Unicode database on that range: \<open>is_space\<close> is \<^verbatim>\<open>str.isspace\<close> (and the
  class \<^verbatim>\<open>\s\<close>), \<open>is_digit\<close> the class \<^verbatim>\<open>\d\<close>, \<open>is_word\<close> the class \<^verbatim>\<open>\w\<close>
  (alphanumeric or underscore), \<open>lower\<close> is \<^verbatim>\<open>str.lower\<close>, \<open>strip\<close> is \<^verbatim>\<open>str.strip()\<close>,
  \<open>split_ws\<close> is \<^verbatim>\<open>str.split()\<close> and \<open>contains s sub\<close> is \<^verbatim>\<open>sub in s\<close>.
\<close>

definition py_ord :: "char \<Rightarrow> int" where
  "py_ord c = of_char c"

definition is_space :: "char \<Rightarrow> bool" where
  "is_space c = (let n = py_ord c in (9 \<le> n \<and> n \<le> 13) \<or> (28 \<le> n \<and> n \<le> 32) \<or> n = 133 \<or> n = 160)"

definition is_digit :: "char \<Rightarrow> bool" where
  "is_digit c = (let n = py_ord c in 48 \<le> n \<and> n \<le> 57)"

definition is_word :: "char \<Rightarrow> bool" where
  "is_word c =
     (let n = py_ord c in
        (48 \<le> n \<and> n \<le> 57) \<or> (65 \<le> n \<and> n \<le> 90) \<or> n = 95 \<or> (97 \<le> n \<and> n \<le> 122) \<or>
        n = 170 \<or> n = 178 \<or> n = 179 \<or> n = 181 \<or> n = 185 \<or> n = 186 \<or>
        (188 \<le> n \<and> n \<le> 190) \<or> (192 \<le> n \<and> n \<le> 214) \<or> (216 \<le> n \<and> n \<le> 246) \<or>
        248 \<le> n)"

definition lower_char :: "char \<Rightarrow> char" where
  "lower_char c =
     (let n = py_ord c in
        if (65 \<le> n \<and> n \<le> 90) \<or> (192 \<le> n \<and> n \<le> 214) \<or> (216 \<le> n \<and> n \<le> 222)
        then char_of (n + 32) else c)"

definition ascii_upper_char :: "char \<Rightarrow> char" where
  "ascii_upper_char c = (let n = py_ord c in if 97 \<le> n \<and> n \<le> 122 then char_of (n - 32) else c)"

definition lower :: "string \<Rightarrow> string" where
  "lower s = map lower_char s"

definition strip :: "string \<Rightarrow> string" where
  "strip s = rev (dropWhile is_space (rev (dropWhile is_space s)))"

fun split_ws_aux :: "string \<Rightarrow> string \<Rightarrow> string list" where
  "split_ws_aux w [] = (if w = [] then [] else [rev w])"
| "split_ws_aux w (c # cs) =
     (if is_space c then (if w = [] then split_ws_aux [] cs else rev w # split_ws_aux [] cs)
      else split_ws_aux (c # w) cs)"

definition split_ws :: "string \<Rightarrow> string list" where
  "split_ws s = split_ws_aux [] s"

fun contains :: "string \<Rightarrow> string \<Rightarrow> bool" where
  "contains [] sub = (sub = [])"
| "contains (c # cs) sub = (prefix sub (c # cs) \<or> contains cs sub)"

section \<open>Regular expressions (the subset of \<^verbatim>\<open>re\<close> the program uses)\<close>

text \<open>
  A pattern is a term of \<open>rx\<close>: one character of a class, a greedy (\<open>Rep\<close>) or lazy
  (\<open>RepLazy\<close>) repetition of a class with its bounds, sequence, alternation, a numbered
  capturing group, \<^verbatim>\<open>^\<close> (\<open>Bol\<close>) and \<^verbatim>\<open>\b\<close> (\<open>WordB\<close>). Every repetition in the
  program's patterns is over a single character class.

  \<open>rx_run\<close> lists the ways a pattern matches at one position in the order in which the
  backtracking matcher of \<^verbatim>\<open>re\<close> tries them, so the head of the list is the match Python
  reports. A matcher state is the character before the position (\<open>None\<close> at the start of
  the text), the text from the position on, and the groups captured so far. The flag
  \<open>ic\<close> is \<^verbatim>\<open>re.IGNORECASE\<close>.
\<close>

datatype citem = Ch char | Rng char char | WordC | SpaceC | DigitC

datatype cset = In "citem list" | NotIn "citem list" | Dot

datatype rx =
    One cset
  | Rep cset nat "nat option"
  | RepLazy cset nat "nat option"
  | Seq rx rx
  | Alt rx rx
  | Grp nat rx
  | Bol
  | WordB
  | Eps

fun citem_mem :: "bool \<Rightarrow> citem \<Rightarrow> char \<Rightarrow> bool" where
  "citem_mem ic (Ch x) c = (c = x \<or> (ic \<and> (lower_char c = x \<or> ascii_upper_char c = x)))"
| "citem_mem ic (Rng a b) c =
     ((py_ord a \<le> py_ord c \<and> py_ord c \<le> py_ord b) \<or>
      (ic \<and> ((py_ord a \<le> py_ord (lower_char c) \<and> py_ord (lower_char c) \<le> py_ord b) \<or>
             (py_ord a \<le> py_ord (ascii_upper_char c) \<and> py_ord (ascii_upper_char c) \<le> py_ord b))))"
| "citem_mem ic WordC c = is_word c"
| "citem_mem ic SpaceC c = is_space c"
| "citem_mem ic DigitC c = is_digit c"

fun cset_mem :: "bool \<Rightarrow> cset \<Rightarrow> char \<Rightarrow> bool" where
  "cset_mem ic (In xs) c = list_ex (\<lambda>x. citem_mem ic x c) xs"
| "cset_mem ic (NotIn xs) c = (\<not> list_ex (\<lambda>x. citem_mem ic x c) xs)"
| "cset_mem ic Dot c = (c \<noteq> CHR 0x0A)"

type_synonym groups = "(nat \<times> string) list"
type_synonym mstate = "char option \<times> string \<times> groups"

fun advance :: "nat \<Rightarrow> char option \<times> string \<Rightarrow> char option \<times> string" where
  "advance 0 ps = ps"
| "advance (Suc k) (p, []) = (p, [])"
| "advance (Suc k) (p, c # cs) = advance k (Some c, cs)"

definition run_length :: "bool \<Rightarrow> cset \<Rightarrow> nat option \<Rightarrow> string \<Rightarrow> nat" where
  "run_length ic cs hi s =
     (let n = length (takeWhile (cset_mem ic cs) s)
      in case hi of None \<Rightarrow> n | Some h \<Rightarrow> min h n)"

definition word_boundary :: "char option \<Rightarrow> string \<Rightarrow> bool" where
  "word_boundary p s =
     ((case p of None \<Rightarrow> False | Some c \<Rightarrow> is_word c) \<noteq> (case s of [] \<Rightarrow> False | c # _ \<Rightarrow> is_word c))"

fun rx_run :: "bool \<Rightarrow> rx \<Rightarrow> mstate \<Rightarrow> mstate list" where
  "rx_run ic (One cs) (p, s, g) =
     (case s of [] \<Rightarrow> [] | c # s' \<Rightarrow> if cset_mem ic cs c then [(Some c, s', g)] else [])"
| "rx_run ic (Rep cs lo hi) (p, s, g) =
     (let n = run_length ic cs hi s
      in map (\<lambda>k. case advance k (p, s) of (p', s') \<Rightarrow> (p', s', g)) (rev [lo..<Suc n]))"
| "rx_run ic (RepLazy cs lo hi) (p, s, g) =
     (let n = run_length ic cs hi s
      in map (\<lambda>k. case advance k (p, s) of (p', s') \<Rightarrow> (p', s', g)) [lo..<Suc n])"
| "rx_run ic (Seq r1 r2) st = concat (map (rx_run ic r2) (rx_run ic r1 st))"
| "rx_run ic (Alt r1 r2) st = rx_run ic r1 st @ rx_run ic r2 st"
| "rx_run ic (Grp n r) (p, s, g) =
     map (\<lambda>(p', s', g'). (p', s', (n, take (length s - length s') s) # g')) (rx_run ic r (p, s, g))"
| "rx_run ic Bol (p, s, g) = (if p = None then [(p, s, g)] else [])"
| "rx_run ic WordB (p, s, g) = (if word_boundary p s then [(p, s, g)] else [])"
| "rx_run ic Eps st = [st]"

definition seq :: "rx list \<Rightarrow> rx" where
  "seq rs = foldr Seq rs Eps"

fun alts :: "rx list \<Rightarrow> rx" where
  "alts [] = Eps"
| "alts [r] = r"
| "alts (r # rs) = Alt r (alts rs)"

definition lit :: "char \<Rightarrow> rx" where
  "lit c = One (In [Ch c])"

definition str :: "string \<Rightarrow> rx" where
  "str s = seq (map lit s)"

definition rplus :: "cset \<Rightarrow> rx" where
  "rplus cs = Rep cs 1 None"


definition ropt :: "char \<Rightarrow> rx" where
  "ropt c = Rep (In [Ch c]) 0 (Some 1)"

text \<open>
  \<open>match_here\<close> is the match at one position (the matched text, the rest of the text and
  the groups). \<open>scan\<close> walks the text from left to right as \<^verbatim>\<open>re.sub\<close>, \<^verbatim>\<open>re.split\<close>
  and \<^verbatim>\<open>re.findall\<close> do: at each position outside the previous match it takes the match
  there, if any, and goes on after it; a character no match covers is passed through.
  (An empty match is followed by the character at its position; none of the program's
  substitution patterns matches the empty string.)
\<close>

definition match_here :: "bool \<Rightarrow> rx \<Rightarrow> char option \<Rightarrow> string \<Rightarrow> (string \<times> string \<times> groups) option" where
  "match_here ic r p s =
     (case rx_run ic r (p, s, []) of
        [] \<Rightarrow> None
      | (p', s', g) # _ \<Rightarrow> Some (take (length s - length s') s, s', g))"

datatype piece = Txt char | Mat string groups

fun scan :: "bool \<Rightarrow> rx \<Rightarrow> char option \<Rightarrow> string \<Rightarrow> nat \<Rightarrow> piece list" where
  "scan ic r p [] skip =
     (if skip = 0 then (case match_here ic r p [] of None \<Rightarrow> [] | Some (m, s', g) \<Rightarrow> [Mat m g]) else [])"
| "scan ic r p (c # cs) skip =
     (if 0 < skip then scan ic r (Some c) cs (skip - 1)
      else case match_here ic r p (c # cs) of
             None \<Rightarrow> Txt c # scan ic r (Some c) cs 0
           | Some (m, s', g) \<Rightarrow>
               if m = [] then Mat m g # Txt c # scan ic r (Some c) cs 0
               else Mat m g # scan ic r (Some c) cs (length m - 1))"

datatype titem = T string | G nat

definition group_text :: "groups \<Rightarrow> nat \<Rightarrow> string" where
  "group_text g n = (case map_of g n of None \<Rightarrow> [] | Some t \<Rightarrow> t)"

definition expand :: "titem list \<Rightarrow> groups \<Rightarrow> string" where
  "expand tpl g = concat (map (\<lambda>t. case t of T s \<Rightarrow> s | G n \<Rightarrow> group_text g n) tpl)"

definition re_sub :: "bool \<Rightarrow> rx \<Rightarrow> titem list \<Rightarrow> string \<Rightarrow> string" where
  "re_sub ic r tpl s =
     concat (map (\<lambda>x. case x of Txt c \<Rightarrow> [c] | Mat m g \<Rightarrow> expand tpl g) (scan ic r None s 0))"

definition re_search :: "bool \<Rightarrow> rx \<Rightarrow> string \<Rightarrow> bool" where
  "re_search ic r s = list_ex (\<lambda>x. case x of Txt c \<Rightarrow> False | Mat m g \<Rightarrow> True) (scan ic r None s 0)"

definition re_findall :: "bool \<Rightarrow> rx \<Rightarrow> string \<Rightarrow> string list" where
  "re_findall ic r s = concat (map (\<lambda>x. case x of Txt c \<Rightarrow> [] | Mat m g \<Rightarrow> [m]) (scan ic r None s 0))"

fun split_pieces :: "string \<Rightarrow> piece list \<Rightarrow> string list" where
  "split_pieces w [] = [rev w]"
| "split_pieces w (Txt c # ps) = split_pieces (c # w) ps"
| "split_pieces w (Mat m g # ps) = rev w # split_pieces [] ps"

definition re_split :: "bool \<Rightarrow> rx \<Rightarrow> string \<Rightarrow> string list" where
  "re_split ic r s = split_pieces [] (scan ic r None s 0)"


section \<open>\<^verbatim>\<open>difflib.SequenceMatcher\<close> of the Python standard library\<close>

text \<open>
  \<^verbatim>\<open>SequenceMatcher(None, a, b).ratio()\<close>, as the deduplicator calls it: no junk
  predicate, \<^verbatim>\<open>autojunk\<close> on. \<open>b2j b c\<close> is the list of positions of \<open>c\<close> in \<open>b\<close>, empty
  for a popular character (when \<open>b\<close> has 200 characters or more, one that occupies more
  than 1 percent of it plus one position). \<open>flm_inner\<close> and \<open>flm_outer\<close> are the two
  nested loops of \<^verbatim>\<open>find_longest_match\<close>; the dictionary \<^verbatim>\<open>j2len\<close> is a function that
  is 0 where the dictionary has no key. \<open>extend_back\<close> and \<open>extend_fwd\<close> are the two loops
  that extend the best block by matching characters; the two loops that absorb junk
  never run, since the junk set is empty. \<open>matching_blocks\<close> is the work-list loop of
  \<^verbatim>\<open>get_matching_blocks\<close>; sorting the blocks, merging adjacent ones and the final
  sentinel of size 0 do not change the sum of the sizes, which is all \<^verbatim>\<open>ratio\<close> reads.

  \<open>ratio\<close> is the exact quotient \<open>2 * matches / (len a + len b)\<close>; Python returns
  the binary64 number nearest to it. The comparison with the threshold 0.85 has the same
  outcome on both, since a quotient other than 17/20 differs from it by at least
  \<open>1 / (20 * (len a + len b))\<close>.
\<close>

definition popular :: "string \<Rightarrow> char \<Rightarrow> bool" where
  "popular b c = (200 \<le> length b \<and> length b div 100 + 1 < count_list b c)"

definition b2j :: "string \<Rightarrow> char \<Rightarrow> nat list" where
  "b2j b c = (if popular b c then [] else filter (\<lambda>j. b ! j = c) [0..<length b])"

type_synonym match = "nat \<times> nat \<times> nat"

fun flm_inner ::
  "nat \<Rightarrow> nat \<Rightarrow> nat \<Rightarrow> (nat \<Rightarrow> nat) \<Rightarrow> nat list \<Rightarrow> (nat \<Rightarrow> nat) \<times> match \<Rightarrow> (nat \<Rightarrow> nat) \<times> match" where
  "flm_inner i blo bhi j2len [] st = st"
| "flm_inner i blo bhi j2len (j # js) (newj2len, (besti, bestj, bestsize)) =
     (if j < blo then flm_inner i blo bhi j2len js (newj2len, (besti, bestj, bestsize))
      else if bhi \<le> j then (newj2len, (besti, bestj, bestsize))
      else
        let k = (if j = 0 then 0 else j2len (j - 1)) + 1;
            newj2len' = newj2len(j := k)
        in if bestsize < k then flm_inner i blo bhi j2len js (newj2len', (i + 1 - k, j + 1 - k, k))
           else flm_inner i blo bhi j2len js (newj2len', (besti, bestj, bestsize)))"

fun flm_outer :: "string \<Rightarrow> string \<Rightarrow> nat \<Rightarrow> nat \<Rightarrow> nat list \<Rightarrow> (nat \<Rightarrow> nat) \<times> match \<Rightarrow> match" where
  "flm_outer a b blo bhi [] (j2len, best) = best"
| "flm_outer a b blo bhi (i # is) (j2len, best) =
     flm_outer a b blo bhi is (flm_inner i blo bhi j2len (b2j b (a ! i)) (\<lambda>j. 0, best))"

function extend_back :: "string \<Rightarrow> string \<Rightarrow> nat \<Rightarrow> nat \<Rightarrow> match \<Rightarrow> match" where
  "extend_back a b alo blo (besti, bestj, bestsize) =
     (if alo < besti \<and> blo < bestj \<and> a ! (besti - 1) = b ! (bestj - 1)
      then extend_back a b alo blo (besti - 1, bestj - 1, bestsize + 1)
      else (besti, bestj, bestsize))"
  by pat_completeness auto
termination
  by (relation "measure (\<lambda>(a, b, alo, blo, besti, bestj, bestsize). besti)") auto

declare extend_back.simps [simp del]

function extend_fwd :: "string \<Rightarrow> string \<Rightarrow> nat \<Rightarrow> nat \<Rightarrow> match \<Rightarrow> match" where
  "extend_fwd a b ahi bhi (besti, bestj, bestsize) =
     (if besti + bestsize < ahi \<and> bestj + bestsize < bhi \<and> a ! (besti + bestsize) = b ! (bestj + bestsize)
      then extend_fwd a b ahi bhi (besti, bestj, bestsize + 1)
      else (besti, bestj, bestsize))"
  by pat_completeness auto
termination
  by (relation "measure (\<lambda>(a, b, ahi, bhi, besti, bestj, bestsize). ahi - (besti + bestsize))") auto

declare extend_fwd.simps [simp del]

definition find_longest_match :: "string \<Rightarrow> string \<Rightarrow> nat \<Rightarrow> nat \<Rightarrow> nat \<Rightarrow> nat \<Rightarrow> match" where
  "find_longest_match a b alo ahi blo bhi =
     extend_fwd a b ahi bhi
       (extend_back a b alo blo
          (flm_outer a b blo bhi [alo..<ahi] (\<lambda>j. 0, (alo, blo, 0))))"


definition in_range :: "nat \<Rightarrow> nat \<Rightarrow> nat \<Rightarrow> nat \<Rightarrow> match \<Rightarrow> bool" where
  "in_range alo ahi blo bhi m =
     (case m of (i, j, k) \<Rightarrow>
        alo \<le> i \<and> blo \<le> j \<and> (if k = 0 then i = alo \<and> j = blo else i + k \<le> ahi \<and> j + k \<le> bhi))"

lemma flm_inner_range:
  assumes "alo \<le> i" and "i < ahi"
    and "\<And>j. j2len j \<le> i - alo \<and> j2len j \<le> j + 1 - blo"
    and "in_range alo ahi blo bhi (snd st)"
    and "\<And>j. fst st j \<le> i + 1 - alo \<and> fst st j \<le> j + 1 - blo"
  shows "in_range alo ahi blo bhi (snd (flm_inner i blo bhi j2len js st)) \<and>
         (\<forall>j. fst (flm_inner i blo bhi j2len js st) j \<le> i + 1 - alo \<and>
              fst (flm_inner i blo bhi j2len js st) j \<le> j + 1 - blo)"
  using assms(4,5)
proof (induction js arbitrary: st)
  case Nil
  then show ?case by simp
next
  case (Cons j js)
  obtain newj besti bestj bestsize where st: "st = (newj, (besti, bestj, bestsize))"
    by (metis prod.collapse)
  show ?case
  proof (cases "j < blo")
    case True
    then show ?thesis using Cons by (simp add: st)
  next
    case False
    note nlt = this
    show ?thesis
    proof (cases "bhi \<le> j")
      case True
      then show ?thesis using Cons.prems nlt by (simp add: st)
    next
      case False
      define k where "k = (if j = 0 then 0 else j2len (j - 1)) + 1"
      have k1: "k \<le> i + 1 - alo"
        using assms(3) [of "j - 1"] assms(1) by (auto simp: k_def)
      have k2: "k \<le> j + 1 - blo"
        using assms(3) [of "j - 1"] nlt by (auto simp: k_def)
      have k0: "0 < k" by (simp add: k_def)
      have newj: "\<And>j'. (newj(j := k)) j' \<le> i + 1 - alo \<and> (newj(j := k)) j' \<le> j' + 1 - blo"
        using Cons.prems(2) k1 k2 by (auto simp: st)
      have rng: "in_range alo ahi blo bhi (i + 1 - k, j + 1 - k, k)"
        using k0 k1 k2 assms(1,2) nlt False by (auto simp: in_range_def)
      show ?thesis
      proof (cases "bestsize < k")
        case True
        have "flm_inner i blo bhi j2len (j # js) st
                = flm_inner i blo bhi j2len js (newj(j := k), (i + 1 - k, j + 1 - k, k))"
          using nlt False True by (simp add: st k_def Let_def)
        then show ?thesis
          using Cons.IH [of "(newj(j := k), (i + 1 - k, j + 1 - k, k))"] rng newj by simp
      next
        case nb: False
        have "flm_inner i blo bhi j2len (j # js) st
                = flm_inner i blo bhi j2len js (newj(j := k), (besti, bestj, bestsize))"
          using nlt False nb by (simp add: st k_def Let_def)
        then show ?thesis
          using Cons.IH [of "(newj(j := k), (besti, bestj, bestsize))"] Cons.prems(1) newj
          by (simp add: st)
      qed
    qed
  qed
qed

lemma flm_outer_range:
  assumes "alo \<le> i0"
    and "\<And>j. j2len j \<le> i0 - alo \<and> j2len j \<le> j + 1 - blo"
    and "in_range alo ahi blo bhi best"
  shows "in_range alo ahi blo bhi (flm_outer a b blo bhi [i0..<ahi] (j2len, best))"
  using assms
proof (induction "ahi - i0" arbitrary: i0 j2len best)
  case 0
  then show ?case by simp
next
  case (Suc n)
  then have lt: "i0 < ahi" by simp
  then have upt: "[i0..<ahi] = i0 # [Suc i0..<ahi]" by (simp add: upt_conv_Cons)
  let ?st = "flm_inner i0 blo bhi j2len (b2j b (a ! i0)) (\<lambda>j. 0, best)"
  have inner: "in_range alo ahi blo bhi (snd ?st) \<and>
               (\<forall>j. fst ?st j \<le> i0 + 1 - alo \<and> fst ?st j \<le> j + 1 - blo)"
    by (rule flm_inner_range [OF Suc.prems(1) lt Suc.prems(2)]) (simp_all add: Suc.prems(3))
  have n: "n = ahi - Suc i0" using Suc.hyps(2) by simp
  have "in_range alo ahi blo bhi (flm_outer a b blo bhi [Suc i0..<ahi] (fst ?st, snd ?st))"
  proof (rule Suc.hyps(1) [OF n])
    show "alo \<le> Suc i0" using Suc.prems(1) by simp
    show "\<And>j. fst ?st j \<le> Suc i0 - alo \<and> fst ?st j \<le> j + 1 - blo"
      using inner by simp
    show "in_range alo ahi blo bhi (snd ?st)" using inner by simp
  qed
  then show ?case by (simp add: upt)
qed

lemma extend_back_range:
  "in_range alo ahi blo bhi m \<Longrightarrow> in_range alo ahi blo bhi (extend_back a b alo blo m)"
proof (induction a b alo blo m rule: extend_back.induct)
  case (1 a b alo blo besti bestj bestsize)
  show ?case
  proof (cases "alo < besti \<and> blo < bestj \<and> a ! (besti - 1) = b ! (bestj - 1)")
    case True
    have "in_range alo ahi blo bhi (besti - 1, bestj - 1, bestsize + 1)"
      using "1.prems" True by (auto simp: in_range_def split: if_splits)
    then show ?thesis using "1.IH" True by (subst extend_back.simps) simp
  next
    case False
    then show ?thesis using "1.prems" by (subst extend_back.simps) auto
  qed
qed

lemma extend_fwd_range:
  "in_range alo ahi blo bhi m \<Longrightarrow> in_range alo ahi blo bhi (extend_fwd a b ahi bhi m)"
proof (induction a b ahi bhi m rule: extend_fwd.induct)
  case (1 a b ahi bhi besti bestj bestsize)
  show ?case
  proof (cases "besti + bestsize < ahi \<and> bestj + bestsize < bhi \<and> a ! (besti + bestsize) = b ! (bestj + bestsize)")
    case True
    have "in_range alo ahi blo bhi (besti, bestj, bestsize + 1)"
      using "1.prems" True by (auto simp: in_range_def split: if_splits)
    then show ?thesis using "1.IH" True by (subst extend_fwd.simps) simp
  next
    case False
    then show ?thesis using "1.prems" by (subst extend_fwd.simps) auto
  qed
qed

lemma find_longest_match_range:
  "in_range alo ahi blo bhi (find_longest_match a b alo ahi blo bhi)"
  unfolding find_longest_match_def
  by (intro extend_fwd_range extend_back_range flm_outer_range) (simp_all add: in_range_def)

type_synonym span = "nat \<times> nat \<times> nat \<times> nat"

definition span_weight :: "span \<Rightarrow> nat" where
  "span_weight q = (case q of (alo, ahi, blo, bhi) \<Rightarrow> 2 * (ahi - alo) + 1)"

definition push_spans :: "span \<Rightarrow> match \<Rightarrow> span list \<Rightarrow> span list" where
  "push_spans q m queue =
     (case q of (alo, ahi, blo, bhi) \<Rightarrow> case m of (i, j, k) \<Rightarrow>
        let queue1 = (if alo < i \<and> blo < j then (alo, i, blo, j) # queue else queue)
        in if i + k < ahi \<and> j + k < bhi then (i + k, ahi, j + k, bhi) # queue1 else queue1)"

lemma push_spans_weight:
  assumes "in_range alo ahi blo bhi (i, j, k)" and "k \<noteq> 0"
  shows "sum_list (map span_weight (push_spans (alo, ahi, blo, bhi) (i, j, k) queue))
           < span_weight (alo, ahi, blo, bhi) + sum_list (map span_weight queue)"
  using assms by (auto simp: push_spans_def span_weight_def in_range_def Let_def)

function matching_blocks :: "string \<Rightarrow> string \<Rightarrow> span list \<Rightarrow> match list \<Rightarrow> match list" where
  "matching_blocks a b [] blocks = blocks"
| "matching_blocks a b ((alo, ahi, blo, bhi) # queue) blocks =
     (let x = find_longest_match a b alo ahi blo bhi
      in if snd (snd x) \<noteq> 0
         then matching_blocks a b (push_spans (alo, ahi, blo, bhi) x queue) (blocks @ [x])
         else matching_blocks a b queue blocks)"
  by pat_completeness auto
termination
proof (relation "measure (\<lambda>(a, b, queue, blocks). sum_list (map span_weight queue))", goal_cases)
  case 1
  show ?case by simp
next
  case (2 a b alo ahi blo bhi queue blocks x)
  obtain i j k where x: "x = (i, j, k)" by (metis prod.collapse)
  have "in_range alo ahi blo bhi (i, j, k)"
    using find_longest_match_range [of alo ahi blo bhi a b] unfolding 2(1) [symmetric] x .
  moreover have "k \<noteq> 0" using 2(2) by (simp add: x)
  ultimately show ?case
    using push_spans_weight [of alo ahi blo bhi i j k queue] by (simp add: x)
next
  case (3 a b alo ahi blo bhi queue blocks x)
  show ?case by (simp add: span_weight_def)
qed

definition ratio :: "string \<Rightarrow> string \<Rightarrow> rat" where
  "ratio a b =
     (let matches = sum_list (map (\<lambda>m. snd (snd m)) (matching_blocks a b [(0, length a, 0, length b)] []));
          len = length a + length b
      in if len \<noteq> 0 then 2 * of_nat matches / of_nat len else 1)"



section \<open>ContentDeduplicator (\<^verbatim>\<open>deduplicator.py\<close>)\<close>

text \<open>
  The object's state: the threshold given to the constructor (0.85 by default, an exact
  fraction here) and the set \<^verbatim>\<open>seen_content\<close>.
\<close>

record deduplicator =
  similarity_threshold :: rat
  seen_content :: "string set"

definition fillers :: "string list" where
  "fillers = [''the'', ''a'', ''an'', ''and'', ''or'', ''but'', ''in'', ''on'', ''at'', ''to'', ''for'']"

definition normalize_text :: "string \<Rightarrow> string" where
  "normalize_text text0 =
     (let text1 = lower text0;
          text2 = re_sub False (rplus (In [SpaceC])) [T '' ''] text1;
          text3 = re_sub False (One (NotIn [WordC, SpaceC, Ch CHR ''.''])) [] text2;
          words = split_ws text3;
          words' = filter (\<lambda>w. w \<notin> set fillers) words
      in py_join '' '' words')"

definition calculate_similarity :: "string \<Rightarrow> string \<Rightarrow> rat" where
  "calculate_similarity text1 text2 = ratio (normalize_text text1) (normalize_text text2)"

text \<open>
  \<^verbatim>\<open>is_duplicate\<close> returns its result and the object's new state. The loop over the
  comparison set returns \<^verbatim>\<open>True\<close> at the first similar element, so its outcome is an
  existential over the set (a Python set has no fixed iteration order).
\<close>

definition is_duplicate :: "deduplicator \<Rightarrow> string \<Rightarrow> string list option \<Rightarrow> bool \<times> deduplicator" where
  "is_duplicate d text reference_texts =
     (if text = [] \<or> length (strip text) < 10 then (True, d)
      else
        let comparison_set = (case reference_texts of Some r \<Rightarrow> set r | None \<Rightarrow> seen_content d)
        in if \<exists>seen\<in>comparison_set. similarity_threshold d \<le> calculate_similarity text seen
           then (True, d)
           else (False, d\<lparr>seen_content := insert text (seen_content d)\<rparr>))"

text \<open>
  One iteration of the loop of \<^verbatim>\<open>deduplicate_list\<close>, on the pair of \<^verbatim>\<open>unique_texts\<close> and
  \<^verbatim>\<open>seen_normalized\<close>.
\<close>

definition dedup_step :: "rat \<Rightarrow> string list \<times> string set \<Rightarrow> string \<Rightarrow> string list \<times> string set" where
  "dedup_step thr st text =
     (case st of (unique_texts, seen_normalized) \<Rightarrow>
        if text = [] \<or> length (strip text) < 10 then st
        else
          let normalized = normalize_text text
          in if normalized \<in> seen_normalized then st
             else
               let is_dup = list_ex (\<lambda>unique_text. thr \<le> calculate_similarity text unique_text) unique_texts
               in if \<not> is_dup then (unique_texts @ [text], insert normalized seen_normalized)
                  else st)"

definition deduplicate_list :: "deduplicator \<Rightarrow> string list \<Rightarrow> string list" where
  "deduplicate_list d texts = fst (foldl (dedup_step (similarity_threshold d)) ([], {}) texts)"

text \<open>The deduplicator the extractor builds: \<^verbatim>\<open>ContentDeduplicator(similarity_threshold=0.85)\<close>.\<close>

definition default_deduplicator :: deduplicator where
  "default_deduplicator = \<lparr>similarity_threshold = 17 / 20, seen_content = {}\<rparr>"

section \<open>AdvancedTextCleaner (\<^verbatim>\<open>advanced_cleaner.py\<close>)\<close>


definition lower_az :: cset where
  "lower_az = In [Rng CHR ''a'' CHR ''z'']"

definition upper_az :: cset where
  "upper_az = In [Rng CHR ''A'' CHR ''Z'']"







definition sentence_end :: rx where
  "sentence_end = rplus (In [Ch CHR ''.'', Ch CHR ''!'', Ch CHR ''?''])"






section \<open>IntelligentExtractor (\<^verbatim>\<open>intelligent_extractor.py\<close>)\<close>

datatype category = Definition | Concept | Procedure | Content

text \<open>
  A point is the dictionary with the keys \<^verbatim>\<open>text\<close>, \<^verbatim>\<open>page\<close> and \<^verbatim>\<open>type\<close>; the result of
  \<^verbatim>\<open>_extract_page_content\<close> is the dictionary with the keys \<^verbatim>\<open>points\<close>, \<^verbatim>\<open>page\<close>,
  \<^verbatim>\<open>definitions\<close>, \<^verbatim>\<open>concepts\<close> and \<^verbatim>\<open>procedures\<close>. Its key \<^verbatim>\<open>heading\<close>, filled by
  \<^verbatim>\<open>_detect_heading\<close> from the raw text alone, is not modelled: no point depends on it.
\<close>

record content_point =
  pt_text :: string
  pt_page :: int
  pt_type :: category

record page_content =
  pc_points :: "content_point list"
  pc_page :: int
  pc_definitions :: "string list"
  pc_concepts :: "string list"
  pc_procedures :: "string list"

definition split_into_sentences :: "string \<Rightarrow> string list" where
  "split_into_sentences text0 =
     map strip (filter (\<lambda>s. 20 < length (strip s)) (re_split False sentence_end text0))"

definition word_alts :: "rx list \<Rightarrow> rx" where
  "word_alts rs = seq [WordB, Grp 1 (alts rs), WordB]"

definition definition_patterns :: "rx list" where
  "definition_patterns =
     [word_alts [str ''is'', str ''are'', seq [str ''refer'', ropt CHR ''s'', str '' to''],
                 seq [str ''mean'', ropt CHR ''s''], str ''defined as'', str ''known as''],
      word_alts [str ''definition'', str ''defined''],
      seq [Bol, One upper_az, rplus lower_az, lit CHR '':''],
      word_alts [str ''called'', str ''termed'']]"

definition procedure_indicators :: "rx list" where
  "procedure_indicators =
     [seq [Bol, rplus (In [DigitC]), lit CHR ''.''],
      word_alts [str ''step'', str ''first'', str ''second'', str ''then'', str ''next'',
                 str ''finally'', str ''procedure''],
      word_alts [str ''method'', str ''process'', str ''technique''],
      word_alts [str ''should'', str ''must'', str ''need to'', str ''have to'']]"

definition concept_indicators :: "rx list" where
  "concept_indicators =
     [word_alts [str ''principle'', str ''theory'', str ''concept'', str ''idea'', str ''approach''],
      word_alts [str ''because'', str ''therefore'', str ''thus'', str ''hence'', str ''since''],
      word_alts [seq [str ''allow'', ropt CHR ''s''], seq [str ''enable'', ropt CHR ''s''],
                 seq [str ''provide'', ropt CHR ''s''], seq [str ''ensure'', ropt CHR ''s'']],
      word_alts [str ''advantage'', str ''benefit'', str ''importance'', str ''significance'']]"

definition is_definition :: "string \<Rightarrow> bool" where
  "is_definition sent = list_ex (\<lambda>pattern. re_search True pattern sent) definition_patterns"

definition is_procedure :: "string \<Rightarrow> bool" where
  "is_procedure sent = list_ex (\<lambda>pattern. re_search True pattern sent) procedure_indicators"

definition is_concept :: "string \<Rightarrow> bool" where
  "is_concept sent = list_ex (\<lambda>pattern. re_search True pattern sent) concept_indicators"

definition noise_patterns :: "string list" where
  "noise_patterns =
     [''dept.'', ''signature'', ''marks obtained'', ''sl.no'', ''criteria'',
      ''page number'', ''copyright'', ''all rights reserved'', ''table'', ''figure'']"

text \<open>The digit test \<open>count / max len 1 > 0.4\<close> is written \<open>4 * max len 1 < 10 * count\<close>.\<close>

definition is_important :: "string \<Rightarrow> bool" where
  "is_important sent =
     (if list_ex (\<lambda>pattern. contains (lower sent) pattern) noise_patterns then False
      else if 4 * max (length sent) 1 < 10 * length (re_findall False (One (In [DigitC])) sent) then False
      else
        let word_count = length (split_ws sent)
        in if word_count < 5 \<or> 50 < word_count then False else True)"

text \<open>The chain of \<^verbatim>\<open>if\<close> and \<^verbatim>\<open>elif\<close> in the loop of \<^verbatim>\<open>_extract_page_content\<close>.\<close>

definition classify :: "string \<Rightarrow> category option" where
  "classify sent =
     (if is_definition sent then Some Definition
      else if is_procedure sent then Some Procedure
      else if is_concept sent then Some Concept
      else if is_important sent then Some Content
      else None)"

definition make_points :: "int \<Rightarrow> category \<Rightarrow> string list \<Rightarrow> content_point list" where
  "make_points page_num ty xs = map (\<lambda>x. \<lparr>pt_text = x, pt_page = page_num, pt_type = ty\<rparr>) xs"

definition extract_page_content :: "string \<Rightarrow> int \<Rightarrow> page_content" where
  "extract_page_content text0 page_num =
     (let sentences = split_into_sentences text0;
          sents = filter (\<lambda>sent. \<not> length sent < 20) (map strip sentences);
          definitions = deduplicate_list default_deduplicator
                          (filter (\<lambda>sent. classify sent = Some Definition) sents);
          procedures = deduplicate_list default_deduplicator
                          (filter (\<lambda>sent. classify sent = Some Procedure) sents);
          concepts = deduplicate_list default_deduplicator
                          (filter (\<lambda>sent. classify sent = Some Concept) sents);
          general_points = deduplicate_list default_deduplicator
                          (filter (\<lambda>sent. classify sent = Some Content) sents);
          points = make_points page_num Definition (take 5 definitions)
                   @ make_points page_num Concept (take 5 concepts)
                   @ make_points page_num Procedure (take 5 procedures)
                   @ make_points page_num Content (take 10 general_points)
      in \<lparr>pc_points = points, pc_page = page_num, pc_definitions = definitions,
          pc_concepts = concepts, pc_procedures = procedures\<rparr>)"

section \<open>QAGenerator (\<^verbatim>\<open>qa_generator.py\<close>)\<close>

text \<open>
  A question/answer pair is the dictionary with the keys \<^verbatim>\<open>question\<close>, \<^verbatim>\<open>answer\<close>,
  \<^verbatim>\<open>type\<close> and, for keyword questions, \<^verbatim>\<open>keyword\<close>.
\<close>

record qa_pair =
  qa_question :: string
  qa_answer :: string
  qa_type :: string
  qa_keyword :: "string option"

text \<open>
  The four definition templates, each as the text before and after \<^verbatim>\<open>{term}\<close>.
\<close>

definition definition_templates :: "(string \<times> string) list" where
  "definition_templates =
     [(''What is '', ''?''), (''Define '', ''.''), (''Explain '', ''.''), (''What do you mean by '', ''?'')]"

definition find_sentence_with_keyword :: "string \<Rightarrow> string list \<Rightarrow> string" where
  "find_sentence_with_keyword keyword sentences =
     (case filter (\<lambda>sentence. contains (lower sentence) (lower keyword)) sentences of
        [] \<Rightarrow> []
      | sentence # _ \<Rightarrow> sentence)"

text \<open>
  Two values come from outside the program's own code: the template that
  \<^verbatim>\<open>random.choice\<close> draws (\<open>choice k\<close> is the index drawn for the \<open>k\<close>-th keyword) and
  \<^verbatim>\<open>str.title\<close>, whose result can leave the range of characters modelled. Both are
  parameters.
\<close>

definition keyword_question ::
  "(nat \<Rightarrow> nat) \<Rightarrow> (string \<Rightarrow> string) \<Rightarrow> string list \<Rightarrow> nat \<times> (string \<times> real) \<Rightarrow> qa_pair list" where
  "keyword_question choice title sentences item =
     (case item of (k, (keyword, score)) \<Rightarrow>
        let answer_sent = find_sentence_with_keyword keyword sentences
        in if answer_sent \<noteq> [] then
             let template = definition_templates ! (choice k mod length definition_templates);
                 question = fst template @ title keyword @ snd template
             in [\<lparr>qa_question = question, qa_answer = answer_sent,
                  qa_type = ''definition'', qa_keyword = Some keyword\<rparr>]
           else [])"

definition generate_keyword_questions ::
  "(nat \<Rightarrow> nat) \<Rightarrow> (string \<Rightarrow> string) \<Rightarrow> (string \<times> real) list \<Rightarrow> string list \<Rightarrow> qa_pair list" where
  "generate_keyword_questions choice title keywords sentences =
     concat (map (keyword_question choice title sentences) (enumerate 0 (take 10 keywords)))"

definition subject_pattern :: "rx \<Rightarrow> rx" where
  "subject_pattern verb =
     seq [Bol, Grp 1 (seq [One upper_az, rplus (In [Rng CHR ''a'' CHR ''z'', SpaceC])]),
          rplus (In [SpaceC]), verb, rplus (In [SpaceC]), Grp 2 (RepLazy Dot 1 None), lit CHR ''.'']"

definition pattern_question :: "rx \<Rightarrow> string \<Rightarrow> string \<Rightarrow> string \<Rightarrow> string \<Rightarrow> qa_pair list" where
  "pattern_question verb q_pre q_post ty sentence =
     (case match_here False (subject_pattern verb) None sentence of
        None \<Rightarrow> []
      | Some (m, rest, g) \<Rightarrow>
          [\<lparr>qa_question = q_pre @ group_text g 1 @ q_post, qa_answer = sentence,
            qa_type = ty, qa_keyword = None\<rparr>])"

definition because_question :: "string \<Rightarrow> qa_pair list" where
  "because_question sentence =
     (if contains (lower sentence) ''because'' then
        let parts = re_split False (str ''because'') sentence
        in if length parts = 2 then
             [\<lparr>qa_question = ''Why '' @ lower (strip (parts ! 0)) @ ''?'', qa_answer = sentence,
               qa_type = ''explanation'', qa_keyword = None\<rparr>]
           else []
      else [])"

definition generate_pattern_questions :: "string list \<Rightarrow> qa_pair list" where
  "generate_pattern_questions sentences =
     concat (map (\<lambda>sentence.
       pattern_question (str ''is'') ''What is '' ''?'' ''definition'' sentence
       @ pattern_question (str ''can'') ''What can '' '' do?'' ''capability'' sentence
       @ pattern_question (seq [str ''help'', ropt CHR ''s'']) ''How does '' '' help?'' ''purpose'' sentence
       @ because_question sentence) sentences)"

text \<open>
  \<^verbatim>\<open>_basic_transform\<close>. A sentence with a digit has a first word, so
  \<^verbatim>\<open>sentence.split()[0]\<close> cannot fail; the empty case is there for totality only.
\<close>

definition basic_transform :: "string \<Rightarrow> qa_pair option" where
  "basic_transform sentence =
     (if re_search False (rplus (In [DigitC])) sentence then
        (case split_ws sentence of
           [] \<Rightarrow> None
         | w # _ \<Rightarrow>
             Some \<lparr>qa_question = ''What is mentioned about '' @ w @ ''?'', qa_answer = sentence,
                   qa_type = ''factual'', qa_keyword = None\<rparr>)
      else None)"

text \<open>
  \<open>spacy\<close> is \<open>None\<close> when spaCy or its model is not available, and otherwise the
  function \<^verbatim>\<open>_spacy_transform\<close>, which is the parser's work and a parameter here.
\<close>

definition generate_transform_questions ::
  "(string \<Rightarrow> qa_pair option) option \<Rightarrow> string list \<Rightarrow> qa_pair list" where
  "generate_transform_questions spacy sentences =
     concat (map (\<lambda>sentence.
       let word_count = length (split_ws sentence)
       in if word_count < 5 \<or> 30 < word_count then []
          else (case (case spacy of Some f \<Rightarrow> f sentence | None \<Rightarrow> basic_transform sentence) of
                  None \<Rightarrow> []
                | Some qa \<Rightarrow> [qa])) sentences)"

fun dedup_questions_loop :: "string set \<Rightarrow> qa_pair list \<Rightarrow> qa_pair list" where
  "dedup_questions_loop seen_questions [] = []"
| "dedup_questions_loop seen_questions (qa # qa_pairs) =
     (let q = strip (lower (qa_question qa))
      in if q \<notin> seen_questions \<and> qa_answer qa \<noteq> []
         then qa # dedup_questions_loop (insert q seen_questions) qa_pairs
         else dedup_questions_loop seen_questions qa_pairs)"

definition deduplicate_questions :: "qa_pair list \<Rightarrow> qa_pair list" where
  "deduplicate_questions qa_pairs = dedup_questions_loop {} qa_pairs"

definition generate_questions ::
  "(nat \<Rightarrow> nat) \<Rightarrow> (string \<Rightarrow> string) \<Rightarrow> (string \<Rightarrow> qa_pair option) option \<Rightarrow>
   string list \<Rightarrow> (string \<times> real) list \<Rightarrow> int \<Rightarrow> qa_pair list" where
  "generate_questions choice title spacy sentences keywords num_questions =
     (let qa_pairs = generate_keyword_questions choice title keywords sentences
                     @ generate_pattern_questions sentences
                     @ generate_transform_questions spacy sentences
      in py_take num_questions (deduplicate_questions qa_pairs))"

section \<open>KeywordExtractor (\<^verbatim>\<open>keyword_extractor.py\<close>)\<close>

text \<open>
  Scores are real numbers here; the program computes them in floating point, which
  can only change the order of nearly equal scores. \<open>add_score\<close> is the statement
  \<^verbatim>\<open>keyword_scores[k] = keyword_scores.get(k, 0) + s\<close> on a dictionary kept in insertion
  order.
\<close>

datatype py_error = ZeroDivisionError

fun add_score :: "(string \<times> real) list \<Rightarrow> string \<Rightarrow> real \<Rightarrow> (string \<times> real) list" where
  "add_score [] k s = [(k, 0 + s)]"
| "add_score ((k', v) # kvs) k s =
     (if k' = k then (k', v + s) # kvs else (k', v) # add_score kvs k s)"

text \<open>
  The dictionary \<^verbatim>\<open>results\<close>: the keys \<^verbatim>\<open>tfidf\<close> and \<^verbatim>\<open>frequency\<close> are always there,
  \<^verbatim>\<open>rake\<close> and \<^verbatim>\<open>noun_phrases\<close> only when the library is available.
\<close>

record keyword_results =
  kr_tfidf :: "(string \<times> real) list option"
  kr_rake :: "(real \<times> string) list option"
  kr_noun_phrases :: "string list option"
  kr_frequency :: "(string \<times> nat) list option"

definition combine_keywords :: "keyword_results \<Rightarrow> int \<Rightarrow> py_error + (string \<times> real) list" where
  "combine_keywords results top_n =
     (let keyword_scores0 = [];
          keyword_scores1 =
            (case kr_tfidf results of
               None \<Rightarrow> keyword_scores0
             | Some tfidf \<Rightarrow>
                 foldl (\<lambda>ks (keyword, score). add_score ks keyword (score * (35 / 100))) keyword_scores0 tfidf);
          keyword_scores2 =
            (case kr_rake results of
               None \<Rightarrow> keyword_scores1
             | Some rake \<Rightarrow>
                 foldl (\<lambda>ks (score, keyword). add_score ks keyword (min (score / 10) 1 * (25 / 100)))
                   keyword_scores1 rake);
          keyword_scores3 =
            (case kr_noun_phrases results of
               None \<Rightarrow> keyword_scores2
             | Some noun_phrases \<Rightarrow>
                 let max_rank = length noun_phrases
                 in foldl (\<lambda>ks (rank, phrase).
                      add_score ks phrase ((real max_rank - real rank) / real max_rank * (20 / 100)))
                      keyword_scores2 (enumerate 0 noun_phrases))
      in case kr_frequency results of
           None \<Rightarrow> Inr (py_take top_n (sort_key (\<lambda>x. - snd x) keyword_scores3))
         | Some frequency \<Rightarrow>
             let max_freq = (case frequency of [] \<Rightarrow> 1 | (word, freq) # _ \<Rightarrow> freq)
             in if frequency \<noteq> [] \<and> max_freq = 0 then Inl ZeroDivisionError
                else
                  let keyword_scores4 =
                        foldl (\<lambda>ks (word, freq).
                          add_score ks word (real freq / real max_freq * (20 / 100)))
                          keyword_scores3 frequency
                  in Inr (py_take top_n (sort_key (\<lambda>x. - snd x) keyword_scores4)))"

text \<open>
  \<^verbatim>\<open>Counter(words)\<close> as the list of words with their counts in order of first
  occurrence, and \<^verbatim>\<open>most_common(n)\<close>: the \<open>n\<close> largest counts, equal counts in that
  order, and nothing when \<open>n\<close> is not positive.
\<close>

fun count_word :: "(string \<times> nat) list \<Rightarrow> string \<Rightarrow> (string \<times> nat) list" where
  "count_word [] w = [(w, 1)]"
| "count_word ((w', c) # wcs) w = (if w' = w then (w', c + 1) # wcs else (w', c) # count_word wcs w)"

definition counter :: "string list \<Rightarrow> (string \<times> nat) list" where
  "counter ws = foldl count_word [] ws"

definition most_common :: "int \<Rightarrow> (string \<times> nat) list \<Rightarrow> (string \<times> nat) list" where
  "most_common n wcs = (if n \<le> 0 then [] else take (nat n) (sort_key (\<lambda>x. - int (snd x)) wcs))"

definition stopwords :: "string list" where
  "stopwords =
     [''this'', ''that'', ''with'', ''from'', ''have'', ''been'', ''were'',
      ''will'', ''would'', ''could'', ''should'', ''their'', ''there'',
      ''which'', ''when'', ''where'', ''what'', ''these'', ''those'']"

definition extract_frequency_keywords :: "string \<Rightarrow> int \<Rightarrow> (string \<times> nat) list" where
  "extract_frequency_keywords text0 top_n =
     (let words = re_findall False (seq [WordB, Rep lower_az 4 None, WordB]) (lower text0);
          words' = filter (\<lambda>w. w \<notin> set stopwords) words
      in most_common top_n (counter words'))"

text \<open>
  The three library-backed methods. What scikit-learn returns for the sentences
  (\<open>tfidf_lib\<close>, the list \<^verbatim>\<open>keywords\<close> of \<^verbatim>\<open>_extract_tfidf_keywords\<close>, or the empty list
  after an exception), what RAKE returns for the text (\<open>rake_lib\<close>, \<open>None\<close> when RAKE is
  not installed) and the noun chunks spaCy finds (\<open>spacy_chunks\<close>, \<open>None\<close> when spaCy is
  not available) are parameters.
\<close>

definition extract_tfidf_keywords :: "(string \<times> real) list \<Rightarrow> string list \<Rightarrow> (string \<times> real) list" where
  "extract_tfidf_keywords tfidf_lib sentences = (if length sentences < 2 then [] else tfidf_lib)"

definition extract_rake_keywords :: "(real \<times> string) list \<Rightarrow> int \<Rightarrow> (real \<times> string) list" where
  "extract_rake_keywords rake_lib top_n = py_take top_n rake_lib"

definition extract_noun_phrases :: "string list \<Rightarrow> int \<Rightarrow> string list" where
  "extract_noun_phrases spacy_chunks top_n =
     (let noun_chunks = map lower (filter (\<lambda>chunk. length (split_ws chunk) \<le> 4) spacy_chunks)
      in map fst (most_common top_n (counter noun_chunks)))"

text \<open>
  \<^verbatim>\<open>extract_keywords\<close> returns the dictionary \<^verbatim>\<open>results\<close> with the key \<^verbatim>\<open>combined\<close>
  added: here the pair of the methods' results and the combined list.
\<close>

definition extract_keywords ::
  "(string \<times> real) list \<Rightarrow> (real \<times> string) list option \<Rightarrow> string list option \<Rightarrow>
   string \<Rightarrow> string list \<Rightarrow> int \<Rightarrow> py_error + keyword_results \<times> (string \<times> real) list" where
  "extract_keywords tfidf_lib rake_lib spacy_chunks text0 sentences top_n =
     (let results =
            \<lparr>kr_tfidf = Some (extract_tfidf_keywords tfidf_lib sentences),
             kr_rake = map_option (\<lambda>r. extract_rake_keywords r top_n) rake_lib,
             kr_noun_phrases = map_option (\<lambda>c. extract_noun_phrases c top_n) spacy_chunks,
             kr_frequency = Some (extract_frequency_keywords text0 top_n)\<rparr>
      in case combine_keywords results top_n of
           Inl e \<Rightarrow> Inl e
         | Inr combined \<Rightarrow> Inr (results, combined))"
section \<open>Properties of the ranker\<close>

lemma py_take_subseq: "subseq (py_take k xs) xs"
  by (simp add: py_take_def prefix_imp_subseq take_is_prefix)


lemma ranked_indices: "mset (map fst (rank_sentences scores sentences)) = mset [0..<length sentences]"
proof (cases "sentences = []")
  case True
  then show ?thesis by (simp add: rank_sentences_def)
next
  case False
  let ?xs = "map (\<lambda>i. (i, scores i, sentences ! i)) [0..<length sentences]"
  have fst_xs: "map fst ?xs = [0..<length sentences]"
    by (simp add: comp_def)
  have "mset (map fst (rank_sentences scores sentences)) = image_mset fst (mset ?xs)"
    using False by (simp add: rank_sentences_def)
  also have "\<dots> = mset (map fst ?xs)"
    by (rule mset_map [symmetric])
  finally show ?thesis by (simp only: fst_xs)
qed

lemma ranked_distinct: "distinct (map fst (rank_sentences scores sentences))"
proof -
  have "distinct [0..<length sentences]" by simp
  then show ?thesis
    using ranked_indices [of scores sentences] by (metis mset_eq_imp_distinct_iff)
qed

lemma ranked_set: "set (map fst (rank_sentences scores sentences)) = {0..<length sentences}"
  using ranked_indices [of scores sentences] by (metis mset_eq_setD set_upt)


lemma sorted_distinct_subseq_upt:
  assumes "sorted is" and "distinct is" and "set is \<subseteq> {0..<n}"
  shows "subseq is [0..<n]"
proof -
  have "filter (\<lambda>i. i \<in> set is) [0..<n] = is"
  proof (rule sorted_distinct_set_unique)
    show "sorted (filter (\<lambda>i. i \<in> set is) [0..<n])" using sorted_filter [of "\<lambda>i. i" "[0..<n]"] by simp
    show "distinct (filter (\<lambda>i. i \<in> set is) [0..<n])" by simp
    show "sorted is" by (rule assms(1))
    show "distinct is" by (rule assms(2))
    show "set (filter (\<lambda>i. i \<in> set is) [0..<n]) = set is" using assms(3) by auto
  qed
  moreover have "subseq (filter (\<lambda>i. i \<in> set is) [0..<n]) [0..<n]" by simp
  ultimately show ?thesis by simp
qed

lemma py_take_is_take: "\<exists>m. py_take k xs = take m xs"
  by (auto simp: py_take_def)

lemma top_indices_props:
  fixes k :: int
  assumes "is = sort (map fst (py_take k (rank_sentences scores sentences)))"
  shows "sorted is" and "distinct is" and "set is \<subseteq> {0..<length sentences}"
proof -
  let ?r = "rank_sentences scores sentences"
  obtain m where m: "py_take k ?r = take m ?r"
    using py_take_is_take by blast
  have tk: "map fst (py_take k ?r) = take m (map fst ?r)"
    by (simp add: m take_map)
  show "sorted is" by (simp add: assms)
  show "distinct is"
    using ranked_distinct [of scores sentences] by (simp add: assms tk del: distinct_map)
  show "set is \<subseteq> {0..<length sentences}"
    using set_take_subset [of m "map fst ?r"] ranked_set [of scores sentences]
    by (simp add: assms tk del: set_map)
qed

lemma map_nth_subseq:
  assumes "sorted is" and "distinct is" and "set is \<subseteq> {0..<length xs}"
  shows "subseq (map (\<lambda>i. xs ! i) is) xs"
proof -
  have "subseq (map (\<lambda>i. xs ! i) is) (map (\<lambda>i. xs ! i) [0..<length xs])"
    by (rule subseq_map) (rule sorted_distinct_subseq_upt [OF assms])
  then show ?thesis by (simp add: map_nth)
qed

text \<open>
  C2. For every sentence list, every score vector and every \<open>top_n\<close> (given or
  defaulted), \<open>get_top_sentences\<close> returns a subsequence of the input list: the selected
  sentences appear in the relative order they have in the input, whatever the scores are.
\<close>

theorem get_top_sentences_subseq:
  "subseq (get_top_sentences scores sentences top_n top_percent) sentences"
proof (cases "sentences = []")
  case True
  then show ?thesis by (simp add: get_top_sentences_def)
next
  case False
  define k where "k = (case top_n of
      None \<Rightarrow> max 3 (fl_int (fl_mul (fl_of_nat (length sentences)) top_percent))
    | Some k \<Rightarrow> k)"
  have "get_top_sentences scores sentences top_n top_percent
          = map (\<lambda>i. sentences ! i) (sort (map fst (py_take k (rank_sentences scores sentences))))"
    using False by (simp add: get_top_sentences_def k_def Let_def)
  then show ?thesis
    using map_nth_subseq [OF top_indices_props [OF refl]] by simp
qed


section \<open>Properties of the summarizer\<close>


lemma fl_int_nonneg: "0 \<le> fl_int f"
  by (simp add: fl_int_def pos_imp_zdiv_nonneg_iff)







section \<open>Identical sequences have ratio 1\<close>

declare matching_blocks.simps [simp del]

fun nonpop_run :: "string \<Rightarrow> nat \<Rightarrow> nat" where
  "nonpop_run a 0 = (if popular a (a ! 0) then 0 else 1)"
| "nonpop_run a (Suc i) = (if popular a (a ! Suc i) then 0 else nonpop_run a i + 1)"

definition prev_run :: "string \<Rightarrow> nat \<Rightarrow> nat" where
  "prev_run a i = (if i = 0 then 0 else nonpop_run a (i - 1))"

lemma nonpop_run_eq:
  "nonpop_run a i = (if popular a (a ! i) then 0 else prev_run a i + 1)"
  by (cases i) (simp_all add: prev_run_def)

definition diag_inv :: "string \<Rightarrow> nat \<Rightarrow> (nat \<Rightarrow> nat) \<Rightarrow> match \<Rightarrow> bool" where
  "diag_inv a i newj best =
     (fst best = fst (snd best) \<and> (\<forall>i'<i. nonpop_run a i' \<le> snd (snd best)) \<and>
      (\<forall>j. newj j \<le> nonpop_run a i \<and> newj j \<le> nonpop_run a j))"

definition row_done :: "string \<Rightarrow> nat \<Rightarrow> (nat \<Rightarrow> nat) \<Rightarrow> match \<Rightarrow> bool" where
  "row_done a i newj best = (newj i = nonpop_run a i \<and> nonpop_run a i \<le> snd (snd best))"

lemma flm_inner_diag:
  assumes np: "\<not> popular a (a ! i)"
    and J1: "\<And>j. j2len j \<le> prev_run a i"
    and J2: "\<And>j. j2len j \<le> nonpop_run a j"
    and J3: "0 < i \<Longrightarrow> j2len (i - 1) = nonpop_run a (i - 1)"
  shows "sorted_wrt (<) js \<Longrightarrow> (\<forall>j\<in>set js. j < length a \<and> a ! j = a ! i) \<Longrightarrow>
         diag_inv a i (fst st) (snd st) \<Longrightarrow> row_done a i (fst st) (snd st) \<or> i \<in> set js \<Longrightarrow>
         diag_inv a i (fst (flm_inner i 0 (length a) j2len js st)) (snd (flm_inner i 0 (length a) j2len js st)) \<and>
         row_done a i (fst (flm_inner i 0 (length a) j2len js st)) (snd (flm_inner i 0 (length a) j2len js st))"
proof (induction js arbitrary: st)
  case Nil
  then show ?case by simp
next
  case (Cons j js)
  obtain newj besti bestj bestsize where st: "st = (newj, (besti, bestj, bestsize))"
    by (metis prod.collapse)
  have jn: "j < length a" and aj: "a ! j = a ! i" using Cons.prems(2) by auto
  have srt: "sorted_wrt (<) js" and gt: "\<forall>x\<in>set js. j < x" using Cons.prems(1) by auto
  have rows: "\<forall>j\<in>set js. j < length a \<and> a ! j = a ! i" using Cons.prems(2) by auto
  have inv: "besti = bestj" "\<And>i'. i' < i \<Longrightarrow> nonpop_run a i' \<le> bestsize"
    "\<And>x. newj x \<le> nonpop_run a i \<and> newj x \<le> nonpop_run a x"
    using Cons.prems(3) by (auto simp: diag_inv_def st)
  define k where "k = (if j = 0 then 0 else j2len (j - 1)) + 1"
  have Di: "nonpop_run a i = prev_run a i + 1"
    using np by (simp add: nonpop_run_eq)
  have Dj: "nonpop_run a j = prev_run a j + 1"
    using np aj by (simp add: nonpop_run_eq)
  have k_le_Di: "k \<le> nonpop_run a i"
    using J1 [of "j - 1"] by (simp add: k_def Di)
  have k_le_Dj: "k \<le> nonpop_run a j"
    using J2 [of "j - 1"] by (auto simp: k_def Dj prev_run_def)
  have k_eq: "j = i \<Longrightarrow> k = nonpop_run a i"
    using J3 by (auto simp: k_def Di prev_run_def)
  have k0: "0 < k" by (simp add: k_def)
  have step: "flm_inner i 0 (length a) j2len (j # js) st
                = flm_inner i 0 (length a) j2len js
                    (newj(j := k), if bestsize < k then (i + 1 - k, j + 1 - k, k) else (besti, bestj, bestsize))"
    using jn by (simp add: st k_def Let_def)
  let ?st' = "(newj(j := k), if bestsize < k then (i + 1 - k, j + 1 - k, k) else (besti, bestj, bestsize))"
  have upd: "bestsize < k \<Longrightarrow> j = i"
  proof (rule ccontr)
    assume lt: "bestsize < k" and ne: "j \<noteq> i"
    show False
    proof (cases "j < i")
      case True
      then show False using inv(2) [of j] k_le_Dj lt by simp
    next
      case False
      then have "i < j" using ne by simp
      then have "i \<notin> set (j # js)" using gt by auto
      then have "row_done a i newj (besti, bestj, bestsize)"
        using Cons.prems(4) by (simp add: st)
      then show False using k_le_Di lt by (simp add: row_done_def)
    qed
  qed
  have inv': "diag_inv a i (fst ?st') (snd ?st')"
  proof (cases "bestsize < k")
    case True
    then have ji: "j = i" by (rule upd)
    have "\<And>i'. i' < i \<Longrightarrow> nonpop_run a i' \<le> k"
      using inv(2) True by (meson le_trans less_imp_le)
    then show ?thesis
      using True ji inv(3) k_le_Di k_le_Dj by (auto simp: diag_inv_def)
  next
    case False
    then show ?thesis
      using inv k_le_Di k_le_Dj by (auto simp: diag_inv_def)
  qed
  have done': "row_done a i (fst ?st') (snd ?st') \<or> i \<in> set js"
  proof (cases "j = i")
    case True
    then show ?thesis using k_eq by (auto simp: row_done_def)
  next
    case False
    show ?thesis
    proof (cases "i \<in> set js")
      case True
      then show ?thesis by simp
    next
      case nin: False
      then have "row_done a i newj (besti, bestj, bestsize)"
        using Cons.prems(4) False by (simp add: st)
      moreover have "\<not> bestsize < k" using upd False by blast
      ultimately show ?thesis using False by (simp add: row_done_def)
    qed
  qed
  show ?case
    unfolding step by (rule Cons.IH [OF srt rows inv' done'])
qed

lemma row_sorted: "sorted_wrt (<) (filter P [0..<n])"
  by (simp add: sorted_wrt_filter)

lemma flm_outer_diag:
  assumes "i0 \<le> length a"
    and "\<And>j. j2len j \<le> prev_run a i0"
    and "\<And>j. j2len j \<le> nonpop_run a j"
    and "0 < i0 \<Longrightarrow> j2len (i0 - 1) = nonpop_run a (i0 - 1)"
    and "fst best = fst (snd best)"
    and "\<And>i'. i' < i0 \<Longrightarrow> nonpop_run a i' \<le> snd (snd best)"
  shows "fst (flm_outer a a 0 (length a) [i0..<length a] (j2len, best))
           = fst (snd (flm_outer a a 0 (length a) [i0..<length a] (j2len, best)))"
  using assms
proof (induction "length a - i0" arbitrary: i0 j2len best)
  case 0
  then show ?case by simp
next
  case (Suc n)
  then have lt: "i0 < length a" by simp
  then have upt: "[i0..<length a] = i0 # [Suc i0..<length a]" by (simp add: upt_conv_Cons)
  let ?st = "flm_inner i0 0 (length a) j2len (b2j a (a ! i0)) (\<lambda>j. 0, best)"
  have n: "n = length a - Suc i0" using Suc.hyps(2) by simp
  have post: "diag_inv a i0 (fst ?st) (snd ?st) \<and> row_done a i0 (fst ?st) (snd ?st)"
  proof (cases "popular a (a ! i0)")
    case True
    then show ?thesis
      using Suc.prems(5,6) by (simp add: b2j_def diag_inv_def row_done_def nonpop_run_eq)
  next
    case False
    have row: "b2j a (a ! i0) = filter (\<lambda>j. a ! j = a ! i0) [0..<length a]"
      using False by (simp add: b2j_def)
    show ?thesis
      unfolding row
    proof (rule flm_inner_diag [OF False Suc.prems(2) Suc.prems(3) Suc.prems(4)])
      show "sorted_wrt (<) (filter (\<lambda>j. a ! j = a ! i0) [0..<length a])" by (rule row_sorted)
      show "\<forall>j\<in>set (filter (\<lambda>j. a ! j = a ! i0) [0..<length a]). j < length a \<and> a ! j = a ! i0"
        by simp
      show "diag_inv a i0 (fst (\<lambda>j. 0, best)) (snd (\<lambda>j. 0, best))"
        using Suc.prems(5,6) by (simp add: diag_inv_def)
      show "row_done a i0 (fst (\<lambda>j. 0, best)) (snd (\<lambda>j. 0, best))
              \<or> i0 \<in> set (filter (\<lambda>j. a ! j = a ! i0) [0..<length a])"
        using lt by simp
    qed
  qed
  have "fst (flm_outer a a 0 (length a) [Suc i0..<length a] (fst ?st, snd ?st))
          = fst (snd (flm_outer a a 0 (length a) [Suc i0..<length a] (fst ?st, snd ?st)))"
  proof (rule Suc.hyps(1) [OF n])
    show "Suc i0 \<le> length a" using lt by simp
    show "\<And>j. fst ?st j \<le> prev_run a (Suc i0)"
      using post by (simp add: diag_inv_def prev_run_def)
    show "\<And>j. fst ?st j \<le> nonpop_run a j"
      using post by (simp add: diag_inv_def)
    show "fst ?st (Suc i0 - 1) = nonpop_run a (Suc i0 - 1)"
      using post by (simp add: row_done_def)
    show "fst (snd ?st) = fst (snd (snd ?st))"
      using post by (simp add: diag_inv_def)
    show "\<And>i'. i' < Suc i0 \<Longrightarrow> nonpop_run a i' \<le> snd (snd (snd ?st))"
      using post by (auto simp: diag_inv_def row_done_def less_Suc_eq)
  qed
  then show ?case by (simp add: upt)
qed

lemma extend_back_same: "extend_back a a 0 0 (i, i, k) = (0, 0, k + i)"
proof (induction i arbitrary: k)
  case 0
  then show ?case by (subst extend_back.simps) simp
next
  case (Suc i)
  show ?case by (subst extend_back.simps) (simp add: Suc.IH)
qed

lemma extend_fwd_same: "k \<le> n \<Longrightarrow> extend_fwd a a n n (0, 0, k) = (0, 0, n)"
proof (induction "n - k" arbitrary: k)
  case 0
  then show ?case by (subst extend_fwd.simps) simp
next
  case (Suc d)
  have lt: "k < n" using Suc.hyps(2) by simp
  have "d = n - (k + 1)" using Suc.hyps(2) by simp
  then have "extend_fwd a a n n (0, 0, k + 1) = (0, 0, n)"
    using lt by (intro Suc.hyps(1)) simp_all
  then show ?case using lt by (subst extend_fwd.simps) simp
qed

lemma find_longest_match_same:
  "find_longest_match a a 0 (length a) 0 (length a) = (0, 0, length a)"
proof -
  let ?n = "length a"
  let ?m = "flm_outer a a 0 ?n [0..<?n] (\<lambda>j. 0, (0, 0, 0))"
  obtain i j k where m: "?m = (i, j, k)" by (metis prod.collapse)
  have "fst ?m = fst (snd ?m)"
    by (rule flm_outer_diag) (simp_all add: prev_run_def)
  then have ij: "j = i" by (simp add: m)
  have "in_range 0 ?n 0 ?n ?m"
    by (rule flm_outer_range) (simp_all add: in_range_def)
  then have le: "k + i \<le> ?n"
    by (auto simp: m ij in_range_def split: if_splits)
  show ?thesis
    by (simp add: find_longest_match_def m ij extend_back_same extend_fwd_same [OF le])
qed

lemma matching_blocks_same:
  "matching_blocks a a [(0, length a, 0, length a)] [] = (if a = [] then [] else [(0, 0, length a)])"
  by (simp add: matching_blocks.simps find_longest_match_same push_spans_def)

lemma ratio_same: "ratio a a = 1"
  by (simp add: ratio_def matching_blocks_same)


section \<open>Properties of the deduplicator\<close>

lemma calculate_similarity_same_normal:
  "normalize_text t = normalize_text u \<Longrightarrow> calculate_similarity t u = 1"
  by (simp add: calculate_similarity_def ratio_same)

definition dedup_inv :: "rat \<Rightarrow> string list \<times> string set \<Rightarrow> bool" where
  "dedup_inv thr st = (snd st = normalize_text ` set (fst st))"

lemma dedup_step_inv: "dedup_inv thr st \<Longrightarrow> dedup_inv thr (dedup_step thr st t)"
  by (cases st) (auto simp: dedup_inv_def dedup_step_def Let_def)

lemma dedup_foldl_inv: "dedup_inv thr st \<Longrightarrow> dedup_inv thr (foldl (dedup_step thr) st ts)"
  by (induction ts arbitrary: st) (simp_all add: dedup_step_inv)

lemma dedup_step_accept:
  assumes "dedup_inv thr st" and "thr \<le> 1"
  shows "fst (dedup_step thr st t)
           = fst st @ (if 10 \<le> length (strip t) \<and> (\<forall>u\<in>set (fst st). calculate_similarity t u < thr)
                       then [t] else [])"
proof -
  obtain us sn where st: "st = (us, sn)" by (cases st)
  have sn: "sn = normalize_text ` set us" using assms(1) by (simp add: dedup_inv_def st)
  have strip_nil: "t = [] \<Longrightarrow> length (strip t) < 10" by (simp add: strip_def)
  have seen: "normalize_text t \<in> sn \<Longrightarrow> \<exists>u\<in>set us. thr \<le> calculate_similarity t u"
  proof -
    assume "normalize_text t \<in> sn"
    then obtain u where u: "u \<in> set us" "normalize_text t = normalize_text u"
      by (auto simp: sn)
    then have "calculate_similarity t u = 1" by (simp add: calculate_similarity_same_normal)
    then have "thr \<le> calculate_similarity t u" using assms(2) by simp
    then show ?thesis using u(1) by (rule_tac x = u in bexI)
  qed
  show ?thesis
    using strip_nil seen
    by (auto simp: st dedup_step_def Let_def list_ex_iff not_le not_less)
qed

lemma deduplicate_list_snoc:
  assumes "similarity_threshold d \<le> 1"
  shows "deduplicate_list d (texts @ [t])
           = deduplicate_list d texts @
             (if 10 \<le> length (strip t) \<and>
                 (\<forall>u\<in>set (deduplicate_list d texts). calculate_similarity t u < similarity_threshold d)
              then [t] else [])"
proof -
  have "dedup_inv (similarity_threshold d) ([], {})" by (simp add: dedup_inv_def)
  then have "dedup_inv (similarity_threshold d)
               (foldl (dedup_step (similarity_threshold d)) ([], {}) texts)"
    by (rule dedup_foldl_inv)
  from dedup_step_accept [OF this assms, of t]
  show ?thesis by (simp add: deduplicate_list_def)
qed

lemma deduplicate_list_subseq:
  assumes "similarity_threshold d \<le> 1"
  shows "subseq (deduplicate_list d texts) texts"
proof (induction texts rule: rev_induct)
  case Nil
  then show ?case by (simp add: deduplicate_list_def)
next
  case (snoc t texts)
  show ?case
    using snoc.IH by (auto simp: deduplicate_list_snoc [OF assms] intro: subseq_rev_drop_many)
qed






text \<open>
  C10. When \<open>is_duplicate\<close> is called with an explicit reference list and returns
  \<^verbatim>\<open>False\<close>, the text has been added to \<^verbatim>\<open>seen_content\<close>, although only the reference
  list was compared; a second call on the same object with no reference list then
  returns \<^verbatim>\<open>True\<close> for that text (the threshold being at most 1, as the default is).
\<close>

theorem is_duplicate_marks_seen:
  assumes "similarity_threshold d \<le> 1"
    and "is_duplicate d text (Some reference_texts) = (False, d')"
  shows "seen_content d' = insert text (seen_content d) \<and> fst (is_duplicate d' text None)"
proof -
  have long: "\<not> (text = [] \<or> length (strip text) < 10)"
    using assms(2) by (auto simp: is_duplicate_def)
  have d': "d' = d\<lparr>seen_content := insert text (seen_content d)\<rparr>"
    using assms(2) long by (auto simp: is_duplicate_def Let_def split: if_splits)
  have "calculate_similarity text text = 1"
    by (simp add: calculate_similarity_same_normal)
  then have "\<exists>seen\<in>seen_content d'. similarity_threshold d' \<le> calculate_similarity text seen"
    using assms(1) by (auto simp: d')
  then have "fst (is_duplicate d' text None)"
    by (simp add: is_duplicate_def)
  then show ?thesis by (simp add: d')
qed

theorem is_duplicate_marks_seen_witness:
  "similarity_threshold default_deduplicator \<le> 1 \<and>
   is_duplicate default_deduplicator ''The cat sat on the mat!'' (Some [])
     = (False, default_deduplicator\<lparr>seen_content := {''The cat sat on the mat!''}\<rparr>) \<and>
   fst (is_duplicate (default_deduplicator\<lparr>seen_content := {''The cat sat on the mat!''}\<rparr>)
          ''The cat sat on the mat!'' None)"
proof -
  have thr: "similarity_threshold default_deduplicator \<le> 1"
    by (simp add: default_deduplicator_def)
  have lA: "length (strip ''The cat sat on the mat!'') = 23" by code_simp
  have call: "is_duplicate default_deduplicator ''The cat sat on the mat!'' (Some [])
     = (False, default_deduplicator\<lparr>seen_content := {''The cat sat on the mat!''}\<rparr>)"
    by (simp add: is_duplicate_def lA default_deduplicator_def)
  show ?thesis
    using is_duplicate_marks_seen [OF thr call] thr call by simp
qed

section \<open>Properties of the text cleaner\<close>
















section \<open>Properties of the content classifier\<close>

lemma default_threshold: "similarity_threshold default_deduplicator \<le> 1"
  by (simp add: default_deduplicator_def)

lemma set_deduplicate_list:
  "set (deduplicate_list default_deduplicator xs) \<subseteq> set xs"
proof
  fix x assume "x \<in> set (deduplicate_list default_deduplicator xs)"
  with deduplicate_list_subseq [OF default_threshold, of xs]
  show "x \<in> set xs" by (auto elim: list_emb_set)
qed

lemma points_of_category:
  assumes "p \<in> set (make_points n ty (take k (deduplicate_list default_deduplicator
                        (filter (\<lambda>sent. classify sent = Some ty) sents))))"
  shows "classify (pt_text p) = Some ty \<and> pt_type p = ty \<and> pt_page p = n"
proof -
  from assms obtain x where x: "x \<in> set (take k (deduplicate_list default_deduplicator
      (filter (\<lambda>sent. classify sent = Some ty) sents)))"
    and p: "p = \<lparr>pt_text = x, pt_page = n, pt_type = ty\<rparr>"
    by (auto simp: make_points_def)
  from x have "x \<in> set (deduplicate_list default_deduplicator
      (filter (\<lambda>sent. classify sent = Some ty) sents))"
    by (rule in_set_takeD)
  then have "x \<in> set (filter (\<lambda>sent. classify sent = Some ty) sents)"
    using set_deduplicate_list by blast
  then show ?thesis by (simp add: p)
qed

lemma point_classified:
  assumes "p \<in> set (pc_points (extract_page_content t n))"
  shows "classify (pt_text p) = Some (pt_type p) \<and> pt_page p = n"
proof -
  have "p \<in> set (make_points n Definition (take 5 (deduplicate_list default_deduplicator
              (filter (\<lambda>sent. classify sent = Some Definition)
                (filter (\<lambda>sent. \<not> length sent < 20) (map strip (split_into_sentences t))))))) \<or>
        p \<in> set (make_points n Concept (take 5 (deduplicate_list default_deduplicator
              (filter (\<lambda>sent. classify sent = Some Concept)
                (filter (\<lambda>sent. \<not> length sent < 20) (map strip (split_into_sentences t))))))) \<or>
        p \<in> set (make_points n Procedure (take 5 (deduplicate_list default_deduplicator
              (filter (\<lambda>sent. classify sent = Some Procedure)
                (filter (\<lambda>sent. \<not> length sent < 20) (map strip (split_into_sentences t))))))) \<or>
        p \<in> set (make_points n Content (take 10 (deduplicate_list default_deduplicator
              (filter (\<lambda>sent. classify sent = Some Content)
                (filter (\<lambda>sent. \<not> length sent < 20) (map strip (split_into_sentences t)))))))"
    using assms by (simp add: extract_page_content_def Let_def)
  then show ?thesis
    by (elim disjE) (drule points_of_category, simp)+
qed

text \<open>
  C3. Every point emitted for a page carries the one category that the priority chain
  definition, procedure, concept, content assigns to its sentence: a sentence matching
  the definition predicate is recorded as a definition only, a procedure matches no
  definition pattern, a concept neither of the two, a generic point none of the three;
  and two points with the same text have the same category.
\<close>

theorem classification_exclusive:
  "\<forall>p\<in>set (pc_points (extract_page_content t n)).
     classify (pt_text p) = Some (pt_type p) \<and>
     (is_definition (pt_text p) \<longrightarrow> pt_type p = Definition) \<and>
     (pt_type p = Procedure \<longrightarrow> \<not> is_definition (pt_text p) \<and> is_procedure (pt_text p)) \<and>
     (pt_type p = Concept \<longrightarrow>
        \<not> is_definition (pt_text p) \<and> \<not> is_procedure (pt_text p) \<and> is_concept (pt_text p)) \<and>
     (pt_type p = Content \<longrightarrow>
        \<not> is_definition (pt_text p) \<and> \<not> is_procedure (pt_text p) \<and> \<not> is_concept (pt_text p) \<and>
        is_important (pt_text p)) \<and>
     (\<forall>q\<in>set (pc_points (extract_page_content t n)). pt_text q = pt_text p \<longrightarrow> pt_type q = pt_type p)"
proof (intro ballI conjI impI)
  fix p assume p: "p \<in> set (pc_points (extract_page_content t n))"
  have c: "classify (pt_text p) = Some (pt_type p)"
    using point_classified [OF p] by simp
  show "classify (pt_text p) = Some (pt_type p)" by (rule c)
  show "pt_type p = Definition" if "is_definition (pt_text p)"
    using c that by (simp add: classify_def)
  show "\<not> is_definition (pt_text p)" if "pt_type p = Procedure"
    using c that by (auto simp: classify_def split: if_splits)
  show "is_procedure (pt_text p)" if "pt_type p = Procedure"
    using c that by (auto simp: classify_def split: if_splits)
  show "\<not> is_definition (pt_text p)" if "pt_type p = Concept"
    using c that by (auto simp: classify_def split: if_splits)
  show "\<not> is_procedure (pt_text p)" if "pt_type p = Concept"
    using c that by (auto simp: classify_def split: if_splits)
  show "is_concept (pt_text p)" if "pt_type p = Concept"
    using c that by (auto simp: classify_def split: if_splits)
  show "\<not> is_definition (pt_text p)" if "pt_type p = Content"
    using c that by (auto simp: classify_def split: if_splits)
  show "\<not> is_procedure (pt_text p)" if "pt_type p = Content"
    using c that by (auto simp: classify_def split: if_splits)
  show "\<not> is_concept (pt_text p)" if "pt_type p = Content"
    using c that by (auto simp: classify_def split: if_splits)
  show "is_important (pt_text p)" if "pt_type p = Content"
    using c that by (auto simp: classify_def split: if_splits)
  show "pt_type q = pt_type p"
    if "q \<in> set (pc_points (extract_page_content t n))" and "pt_text q = pt_text p" for q
    using point_classified [OF that(1)] c that(2) by simp
qed

lemma osmosis_page:
  "pc_points (extract_page_content
      ''Osmosis is the movement of water. Step 1: expose the plant to light.'' 3)
     = [\<lparr>pt_text = ''Osmosis is the movement of water'', pt_page = 3, pt_type = Definition\<rparr>,
        \<lparr>pt_text = ''Step 1: expose the plant to light'', pt_page = 3, pt_type = Procedure\<rparr>]"
  by code_simp

theorem classification_exclusive_witness:
  "pc_points (extract_page_content
      ''Osmosis is the movement of water. Step 1: expose the plant to light.'' 3)
     = [\<lparr>pt_text = ''Osmosis is the movement of water'', pt_page = 3, pt_type = Definition\<rparr>,
        \<lparr>pt_text = ''Step 1: expose the plant to light'', pt_page = 3, pt_type = Procedure\<rparr>] \<and>
   classify ''Osmosis is the movement of water'' = Some Definition \<and>
   \<not> is_definition ''Step 1: expose the plant to light'' \<and>
   is_procedure ''Step 1: expose the plant to light''"
  using classification_exclusive
    [of "''Osmosis is the movement of water. Step 1: expose the plant to light.''" 3]
  by (simp add: osmosis_page)

lemma filter_make_points:
  "filter (\<lambda>p. pt_type p = ty') (make_points n ty xs) = (if ty = ty' then make_points n ty xs else [])"
  by (induction xs) (auto simp: make_points_def)

lemma length_make_points: "length (make_points n ty xs) = length xs"
  by (simp add: make_points_def)

text \<open>
  C9. The points emitted for a page contain at most 5 definitions, at most 5 concepts,
  at most 5 procedures and at most 10 generic content points, and every point carries
  the page's number.
\<close>

theorem points_per_page_capped:
  "length (filter (\<lambda>p. pt_type p = Definition) (pc_points (extract_page_content t n))) \<le> 5 \<and>
   length (filter (\<lambda>p. pt_type p = Concept) (pc_points (extract_page_content t n))) \<le> 5 \<and>
   length (filter (\<lambda>p. pt_type p = Procedure) (pc_points (extract_page_content t n))) \<le> 5 \<and>
   length (filter (\<lambda>p. pt_type p = Content) (pc_points (extract_page_content t n))) \<le> 10 \<and>
   (\<forall>p\<in>set (pc_points (extract_page_content t n)). pt_page p = n)"
proof (intro conjI ballI)
  show "length (filter (\<lambda>p. pt_type p = Definition) (pc_points (extract_page_content t n))) \<le> 5"
    by (simp add: extract_page_content_def Let_def filter_make_points length_make_points)
  show "length (filter (\<lambda>p. pt_type p = Concept) (pc_points (extract_page_content t n))) \<le> 5"
    by (simp add: extract_page_content_def Let_def filter_make_points length_make_points)
  show "length (filter (\<lambda>p. pt_type p = Procedure) (pc_points (extract_page_content t n))) \<le> 5"
    by (simp add: extract_page_content_def Let_def filter_make_points length_make_points)
  show "length (filter (\<lambda>p. pt_type p = Content) (pc_points (extract_page_content t n))) \<le> 10"
    by (simp add: extract_page_content_def Let_def filter_make_points length_make_points)
  show "pt_page p = n" if "p \<in> set (pc_points (extract_page_content t n))" for p
    using point_classified [OF that] by simp
qed

theorem points_per_page_capped_witness:
  "length (filter (\<lambda>p. pt_type p = Definition) (pc_points (extract_page_content
      ''Osmosis is the movement of water. Step 1: expose the plant to light.'' 3))) = 1 \<and>
   length (filter (\<lambda>p. pt_type p = Procedure) (pc_points (extract_page_content
      ''Osmosis is the movement of water. Step 1: expose the plant to light.'' 3))) = 1 \<and>
   list_all (\<lambda>p. pt_page p = 3) (pc_points (extract_page_content
      ''Osmosis is the movement of water. Step 1: expose the plant to light.'' 3))"
  using points_per_page_capped
    [of "''Osmosis is the movement of water. Step 1: expose the plant to light.''" 3]
  by (simp add: osmosis_page)

section \<open>Properties of the question generator\<close>

lemma dedup_questions_loop_keys:
  "distinct (map (\<lambda>qa. strip (lower (qa_question qa))) (dedup_questions_loop seen qas)) \<and>
   (\<forall>qa\<in>set (dedup_questions_loop seen qas). strip (lower (qa_question qa)) \<notin> seen)"
proof (induction qas arbitrary: seen)
  case Nil
  then show ?case by simp
next
  case (Cons qa qas)
  show ?case
  proof (cases "strip (lower (qa_question qa)) \<notin> seen \<and> qa_answer qa \<noteq> []")
    case True
    then show ?thesis
      using Cons.IH [of "insert (strip (lower (qa_question qa))) seen"]
      by (auto simp: Let_def)
  next
    case False
    then show ?thesis
      using Cons.IH [of seen] by (auto simp: Let_def)
  qed
qed

lemma py_take_distinct: "distinct (map f xs) \<Longrightarrow> distinct (map f (py_take k xs))"
  by (simp add: py_take_def distinct_take take_map [symmetric] del: distinct_map)

lemma length_py_take_le: "0 \<le> k \<Longrightarrow> int (length (py_take k xs)) \<le> k"
  by (simp add: py_take_def)

text \<open>
  C6. For every sentence list, keyword list and requested count, whatever the random
  template choices, \<^verbatim>\<open>str.title\<close> and the parser return: no two pairs of the result have
  question texts that are equal after lower-casing and stripping, and the result has at
  most \<open>num_questions\<close> pairs (for a count that is not negative).
\<close>

theorem generate_questions_unique_and_capped:
  "distinct (map (\<lambda>qa. strip (lower (qa_question qa)))
      (generate_questions choice title spacy sentences keywords num_questions)) \<and>
   (0 \<le> num_questions \<longrightarrow>
      int (length (generate_questions choice title spacy sentences keywords num_questions))
        \<le> num_questions)"
  by (simp add: generate_questions_def deduplicate_questions_def Let_def
      py_take_distinct dedup_questions_loop_keys length_py_take_le)

lemma osmosis_questions:
  "map qa_question
     (generate_questions (\<lambda>k. 0) (\<lambda>s. s) None
        [''Osmosis is the movement of water.'', ''Cells have 2 layers of thin membrane.'']
        [(''Osmosis'', 1)] 2)
     = [''What is Osmosis?'', ''What is mentioned about Cells?'']"
  by code_simp

theorem generate_questions_unique_and_capped_witness:
  "(0::int) \<le> 2 \<and>
   map qa_question
     (generate_questions (\<lambda>k. 0) (\<lambda>s. s) None
        [''Osmosis is the movement of water.'', ''Cells have 2 layers of thin membrane.'']
        [(''Osmosis'', 1)] 2)
     = [''What is Osmosis?'', ''What is mentioned about Cells?''] \<and>
   int (length (generate_questions (\<lambda>k. 0) (\<lambda>s. s) None
        [''Osmosis is the movement of water.'', ''Cells have 2 layers of thin membrane.'']
        [(''Osmosis'', 1)] 2)) \<le> 2"
  using generate_questions_unique_and_capped
    [of "\<lambda>k. 0" "\<lambda>s. s" None
        "[''Osmosis is the movement of water.'', ''Cells have 2 layers of thin membrane.'']"
        "[(''Osmosis'', 1)]" 2]
  by (simp add: osmosis_questions)

section \<open>Properties of the keyword extractor\<close>

lemma lower_char_idem: "lower_char (lower_char c) = lower_char c"
  by (auto simp: lower_char_def py_ord_def Let_def)

lemma lower_idem: "lower (lower s) = lower s"
  by (simp add: lower_def lower_char_idem)

lemma lower_fixed_subset: "set m \<subseteq> set (lower s) \<Longrightarrow> lower m = m"
proof -
  assume sub: "set m \<subseteq> set (lower s)"
  have "\<And>c. c \<in> set m \<Longrightarrow> lower_char c = c"
  proof -
    fix c assume "c \<in> set m"
    then have "c \<in> set (lower s)" using sub by blast
    then obtain d where "c = lower_char d" by (auto simp: lower_def)
    then show "lower_char c = c" by (simp add: lower_char_idem)
  qed
  then show ?thesis by (simp add: lower_def map_idI)
qed

lemma match_here_subset:
  assumes "match_here ic r p s = Some (m, s', g)"
  shows "set m \<subseteq> set s"
proof -
  have "m = take (length s - length s') s"
    using assms by (auto simp: match_here_def split: list.splits)
  then show ?thesis by (simp add: set_take_subset)
qed

lemma scan_mat_subset:
  "Mat m g \<in> set (scan ic r p s k) \<Longrightarrow> set m \<subseteq> set s"
proof (induction s arbitrary: p k)
  case Nil
  show ?case
  proof (cases "match_here ic r p []")
    case None
    then show ?thesis using Nil by (cases "k = 0") simp_all
  next
    case (Some a)
    obtain m' s' g' where a: "a = (m', s', g')" by (cases a)
    have "m' = m" using Nil Some a by (cases "k = 0") simp_all
    then have "match_here ic r p [] = Some (m, s', g')" using Some a by simp
    then show ?thesis by (rule match_here_subset)
  qed
next
  case (Cons c cs)
  show ?case
  proof (cases "0 < k")
    case True
    then have "Mat m g \<in> set (scan ic r (Some c) cs (k - 1))" using Cons.prems by simp
    then show ?thesis using Cons.IH by fastforce
  next
    case False
    show ?thesis
    proof (cases "match_here ic r p (c # cs)")
      case None
      then have "Mat m g \<in> set (scan ic r (Some c) cs 0)" using Cons.prems False by simp
      then show ?thesis using Cons.IH by fastforce
    next
      case (Some a)
      obtain m' s' g' where a: "a = (m', s', g')" by (cases a)
      have here: "set m' \<subseteq> set (c # cs)"
        using Some a match_here_subset by blast
      have "Mat m g = Mat m' g' \<or> Mat m g \<in> set (scan ic r (Some c) cs 0)
              \<or> Mat m g \<in> set (scan ic r (Some c) cs (length m' - 1))"
        using Cons.prems False Some a by (auto split: if_splits)
      then show ?thesis using here Cons.IH by fastforce
    qed
  qed
qed

lemma re_findall_subset: "m \<in> set (re_findall ic r s) \<Longrightarrow> set m \<subseteq> set s"
proof -
  assume "m \<in> set (re_findall ic r s)"
  then obtain g where "Mat m g \<in> set (scan ic r None s 0)"
    by (auto simp: re_findall_def split: piece.splits)
  then show ?thesis by (rule scan_mat_subset)
qed

lemma count_word_keys: "fst ` set (count_word wcs w) = insert w (fst ` set wcs)"
  by (induction wcs w rule: count_word.induct) auto

lemma count_word_positive: "\<forall>x\<in>set wcs. 0 < snd x \<Longrightarrow> \<forall>x\<in>set (count_word wcs w). 0 < snd x"
  by (induction wcs w rule: count_word.induct) auto

lemma counter_aux:
  "\<forall>x\<in>set wcs. 0 < snd x \<Longrightarrow>
   fst ` set (foldl count_word wcs ws) = fst ` set wcs \<union> set ws \<and>
   (\<forall>x\<in>set (foldl count_word wcs ws). 0 < snd x)"
proof (induction ws arbitrary: wcs)
  case Nil
  then show ?case by simp
next
  case (Cons w ws)
  have "\<forall>x\<in>set (count_word wcs w). 0 < snd x"
    using Cons.prems by (rule count_word_positive)
  from Cons.IH [OF this] show ?case by (auto simp: count_word_keys)
qed

lemma most_common_subset: "set (most_common n wcs) \<subseteq> set wcs"
  by (auto simp: most_common_def dest: in_set_takeD)

lemma most_common_counter:
  assumes "x \<in> set (most_common n (counter ws))"
  shows "fst x \<in> set ws \<and> 0 < snd x"
proof -
  have x: "x \<in> set (foldl count_word [] ws)"
    using assms most_common_subset by (auto simp: counter_def)
  have "fst ` set (foldl count_word [] ws) = set ws \<and>
        (\<forall>x\<in>set (foldl count_word [] ws). 0 < snd x)"
    using counter_aux [of "[]" ws] by simp
  then show ?thesis using x by force
qed

lemma frequency_keywords_props:
  assumes "x \<in> set (extract_frequency_keywords t n)"
  shows "lower (fst x) = fst x \<and> 0 < snd x"
proof -
  let ?ws = "filter (\<lambda>w. w \<notin> set stopwords)
               (re_findall False (seq [WordB, Rep lower_az 4 None, WordB]) (lower t))"
  have "fst x \<in> set ?ws \<and> 0 < snd x"
    using assms by (intro most_common_counter [of x n ?ws]) (simp add: extract_frequency_keywords_def Let_def)
  then have "set (fst x) \<subseteq> set (lower t)" and "0 < snd x"
    by (auto dest: re_findall_subset)
  then show ?thesis by (simp add: lower_fixed_subset)
qed

lemma noun_phrases_props:
  assumes "x \<in> set (extract_noun_phrases chunks n)"
  shows "lower x = x"
proof -
  let ?ws = "map lower (filter (\<lambda>chunk. length (split_ws chunk) \<le> 4) chunks)"
  from assms obtain y where y: "y \<in> set (most_common n (counter ?ws))" and x: "x = fst y"
    by (auto simp: extract_noun_phrases_def Let_def)
  have "fst y \<in> set ?ws" using most_common_counter [OF y] by simp
  then show ?thesis by (auto simp: x lower_idem)
qed

text \<open>Keys of the score dictionary: distinct, and all fixed by \<open>lower\<close>.\<close>

definition lower_keys :: "(string \<times> real) list \<Rightarrow> bool" where
  "lower_keys ks = (distinct (map fst ks) \<and> (\<forall>k\<in>fst ` set ks. lower k = k))"

lemma add_score_keys:
  "map fst (add_score ks k s) = (if k \<in> fst ` set ks then map fst ks else map fst ks @ [k])"
  by (induction ks k s rule: add_score.induct) auto

lemma add_score_lower_keys:
  "lower_keys ks \<Longrightarrow> lower k = k \<Longrightarrow> lower_keys (add_score ks k s)"
proof -
  assume a: "lower_keys ks" "lower k = k"
  have "set (map fst (add_score ks k s)) \<subseteq> insert k (fst ` set ks)"
    by (auto simp: add_score_keys)
  then have sub: "fst ` set (add_score ks k s) \<subseteq> insert k (fst ` set ks)"
    by simp
  have "\<forall>k'\<in>insert k (fst ` set ks). lower k' = k'"
    using a by (simp add: lower_keys_def)
  then have "\<forall>k'\<in>fst ` set (add_score ks k s). lower k' = k'"
    using sub by blast
  moreover have "distinct (map fst (add_score ks k s))"
    using a(1) by (auto simp: add_score_keys lower_keys_def)
  ultimately show ?thesis by (simp add: lower_keys_def)
qed

lemma foldl_lower_keys:
  assumes "\<And>x. x \<in> set xs \<Longrightarrow> lower (key x) = key x"
  shows "lower_keys ks \<Longrightarrow> lower_keys (foldl (\<lambda>ks x. add_score ks (key x) (val x)) ks xs)"
  using assms
proof (induction xs arbitrary: ks)
  case Nil
  then show ?case by simp
next
  case (Cons x xs)
  have "lower_keys (add_score ks (key x) (val x))"
    using Cons.prems by (intro add_score_lower_keys) simp_all
  then show ?case using Cons.IH Cons.prems(2) by simp
qed

lemma lower_keys_result:
  assumes "lower_keys ks" and "0 \<le> n"
  shows "int (length (py_take n (sort_key f ks))) \<le> n \<and>
         distinct (map (\<lambda>x. lower (fst x)) (py_take n (sort_key f ks)))"
proof -
  obtain m where m: "py_take n (sort_key f ks) = take m (sort_key f ks)"
    using py_take_is_take by blast
  have "mset (map fst (sort_key f ks)) = mset (map fst ks)" by simp
  then have d: "distinct (map fst (sort_key f ks))"
    using assms(1) unfolding lower_keys_def by (metis mset_eq_imp_distinct_iff)
  have "distinct (take m (map fst (sort_key f ks)))"
    using d by (rule distinct_take)
  then have d': "distinct (map fst (py_take n (sort_key f ks)))"
    by (simp add: m take_map)
  have "\<And>x. x \<in> set (py_take n (sort_key f ks)) \<Longrightarrow> lower (fst x) = fst x"
  proof -
    fix x assume "x \<in> set (py_take n (sort_key f ks))"
    then have "x \<in> set ks" by (auto simp: m dest: in_set_takeD)
    then show "lower (fst x) = fst x" using assms(1) by (auto simp: lower_keys_def)
  qed
  then have "map (\<lambda>x. lower (fst x)) (py_take n (sort_key f ks)) = map fst (py_take n (sort_key f ks))"
    by (intro map_cong) simp_all
  then have "distinct (map (\<lambda>x. lower (fst x)) (py_take n (sort_key f ks)))"
    using d' by (simp only:)
  then show ?thesis using length_py_take_le [OF assms(2)] by blast
qed

lemma combine_keywords_props:
  assumes n: "0 \<le> n"
    and tf: "\<And>tfidf x. kr_tfidf res = Some tfidf \<Longrightarrow> x \<in> set tfidf \<Longrightarrow> lower (fst x) = fst x"
    and rk: "\<And>rake x. kr_rake res = Some rake \<Longrightarrow> x \<in> set rake \<Longrightarrow> lower (snd x) = snd x"
    and np: "\<And>phrases x. kr_noun_phrases res = Some phrases \<Longrightarrow> x \<in> set phrases \<Longrightarrow> lower x = x"
    and fr: "\<And>frequency x. kr_frequency res = Some frequency \<Longrightarrow> x \<in> set frequency \<Longrightarrow>
               lower (fst x) = fst x \<and> 0 < snd x"
  shows "\<exists>combined. combine_keywords res n = Inr combined \<and> int (length combined) \<le> n \<and>
           distinct (map (\<lambda>x. lower (fst x)) combined)"
proof -
  define ks1 where "ks1 = (case kr_tfidf res of
      None \<Rightarrow> []
    | Some tfidf \<Rightarrow> foldl (\<lambda>ks (keyword, score). add_score ks keyword (score * (35 / 100))) [] tfidf)"
  define ks2 where "ks2 = (case kr_rake res of
      None \<Rightarrow> ks1
    | Some rake \<Rightarrow>
        foldl (\<lambda>ks (score, keyword). add_score ks keyword (min (score / 10) 1 * (25 / 100))) ks1 rake)"
  define ks3 where "ks3 = (case kr_noun_phrases res of
      None \<Rightarrow> ks2
    | Some noun_phrases \<Rightarrow>
        foldl (\<lambda>ks (rank, phrase).
          add_score ks phrase
            ((real (length noun_phrases) - real rank) / real (length noun_phrases) * (20 / 100)))
          ks2 (enumerate 0 noun_phrases))"
  have l0: "lower_keys []" by (simp add: lower_keys_def)
  have l1: "lower_keys ks1"
  proof (cases "kr_tfidf res")
    case None
    then show ?thesis using l0 by (simp add: ks1_def)
  next
    case (Some tfidf)
    have "lower_keys (foldl (\<lambda>ks x. add_score ks (fst x) (snd x * (35 / 100))) [] tfidf)"
      using tf [OF Some] by (intro foldl_lower_keys l0) simp
    then show ?thesis by (simp add: ks1_def Some case_prod_unfold)
  qed
  have l2: "lower_keys ks2"
  proof (cases "kr_rake res")
    case None
    then show ?thesis using l1 by (simp add: ks2_def)
  next
    case (Some rake)
    have "lower_keys (foldl (\<lambda>ks x. add_score ks (snd x) (min (fst x / 10) 1 * (25 / 100))) ks1 rake)"
      using rk [OF Some] by (intro foldl_lower_keys l1) simp
    then show ?thesis by (simp add: ks2_def Some case_prod_unfold)
  qed
  have l3: "lower_keys ks3"
  proof (cases "kr_noun_phrases res")
    case None
    then show ?thesis using l2 by (simp add: ks3_def)
  next
    case (Some phrases)
    have "\<And>x. x \<in> set (enumerate 0 phrases) \<Longrightarrow> lower (snd x) = snd x"
      using np [OF Some] by (auto simp: in_set_enumerate_eq)
    then have "lower_keys (foldl (\<lambda>ks x. add_score ks (snd x)
        ((real (length phrases) - real (fst x)) / real (length phrases) * (20 / 100))) ks2
        (enumerate 0 phrases))"
      by (intro foldl_lower_keys l2) simp
    then show ?thesis by (simp add: ks3_def Some case_prod_unfold)
  qed
  show ?thesis
  proof (cases "kr_frequency res")
    case None
    then have "combine_keywords res n = Inr (py_take n (sort_key (\<lambda>x. - snd x) ks3))"
      unfolding combine_keywords_def Let_def ks3_def ks2_def ks1_def by simp
    then show ?thesis using lower_keys_result [OF l3 n] by simp
  next
    case (Some frequency)
    define max_freq where "max_freq = (case frequency of [] \<Rightarrow> 1 | (word, freq) # _ \<Rightarrow> freq)"
    have pos: "\<not> (frequency \<noteq> [] \<and> max_freq = 0)"
    proof (cases frequency)
      case Nil
      then show ?thesis by simp
    next
      case (Cons a as)
      then have "0 < snd a" using fr [OF Some, of a] by simp
      then show ?thesis by (simp add: max_freq_def Cons case_prod_unfold)
    qed
    have l4: "lower_keys (foldl (\<lambda>ks x. add_score ks (fst x)
        (real (snd x) / real max_freq * (20 / 100))) ks3 frequency)"
      using fr [OF Some] by (intro foldl_lower_keys l3) simp
    have "combine_keywords res n
            = Inr (py_take n (sort_key (\<lambda>x. - snd x)
                (foldl (\<lambda>ks x. add_score ks (fst x) (real (snd x) / real max_freq * (20 / 100)))
                   ks3 frequency)))"
      using pos
      unfolding combine_keywords_def Let_def ks3_def ks2_def ks1_def max_freq_def
      by (simp add: Some case_prod_unfold)
    then show ?thesis using lower_keys_result [OF l4 n] by simp
  qed
qed

text \<open>
  C5. For every input text, sentence list and \<open>top_n \<ge> 0\<close>, whatever terms the
  libraries return, provided they are in lower case (scikit-learn's vectorizer and RAKE
  lower-case their input): the keyword extractor returns a combined list, its length is
  at most \<open>top_n\<close>, and no two of its entries have the same term up to case.
\<close>

theorem combined_keywords_bounded_unique:
  assumes "0 \<le> top_n"
    and "list_all (\<lambda>x. lower (fst x) = fst x) tfidf_lib"
    and "case rake_lib of None \<Rightarrow> True | Some r \<Rightarrow> list_all (\<lambda>x. lower (snd x) = snd x) r"
  shows "\<exists>results combined.
           extract_keywords tfidf_lib rake_lib spacy_chunks text0 sentences top_n = Inr (results, combined) \<and>
           int (length combined) \<le> top_n \<and>
           distinct (map (\<lambda>x. lower (fst x)) combined)"
proof -
  let ?res = "\<lparr>kr_tfidf = Some (extract_tfidf_keywords tfidf_lib sentences),
             kr_rake = map_option (\<lambda>r. extract_rake_keywords r top_n) rake_lib,
             kr_noun_phrases = map_option (\<lambda>c. extract_noun_phrases c top_n) spacy_chunks,
             kr_frequency = Some (extract_frequency_keywords text0 top_n)\<rparr>"
  have "\<exists>combined. combine_keywords ?res top_n = Inr combined \<and> int (length combined) \<le> top_n \<and>
           distinct (map (\<lambda>x. lower (fst x)) combined)"
  proof (rule combine_keywords_props [OF assms(1)])
    fix tfidf x assume "kr_tfidf ?res = Some tfidf" and "x \<in> set tfidf"
    then show "lower (fst x) = fst x"
      using assms(2) by (auto simp: extract_tfidf_keywords_def list_all_iff split: if_splits)
  next
    fix rake x assume "kr_rake ?res = Some rake" and x: "x \<in> set rake"
    then obtain r where r: "rake_lib = Some r" and rake: "rake = py_take top_n r"
      by (auto simp: extract_rake_keywords_def)
    obtain m where "py_take top_n r = take m r" using py_take_is_take by blast
    then have "x \<in> set r" using x rake by (auto dest: in_set_takeD)
    then show "lower (snd x) = snd x"
      using assms(3) r by (simp add: list_all_iff)
  next
    fix phrases x assume "kr_noun_phrases ?res = Some phrases" and "x \<in> set phrases"
    then show "lower x = x" by (auto dest: noun_phrases_props)
  next
    fix frequency x assume "kr_frequency ?res = Some frequency" and "x \<in> set frequency"
    then show "lower (fst x) = fst x \<and> 0 < snd x" by (auto dest: frequency_keywords_props)
  qed
  then show ?thesis by (auto simp: extract_keywords_def Let_def)
qed

lemma plants_keywords:
  "extract_keywords [(''plants'', 1 / 2), (''water'', 1 / 4)] (Some [(9, ''plants need''), (4, ''water'')])
     (Some [''Plants'', ''the light'', ''plants''])
     ''Plants need water. Plants need light and this soil.''
     [''Plants need water.'', ''Plants need light and this soil.''] 3
   = Inr (\<lparr>kr_tfidf = Some [(''plants'', 1 / 2), (''water'', 1 / 4)],
           kr_rake = Some [(9, ''plants need''), (4, ''water'')],
           kr_noun_phrases = Some [''plants'', ''the light''],
           kr_frequency = Some [(''plants'', 2), (''need'', 2), (''water'', 1)]\<rparr>,
          [(''plants'', 23 / 40), (''water'', 23 / 80), (''plants need'', 9 / 40)])"
  by code_simp

theorem combined_keywords_bounded_unique_witness:
  "(0::int) \<le> 3 \<and>
   list_all (\<lambda>x. lower (fst x) = fst x) [(''plants'', 1 / 2 :: real), (''water'', 1 / 4)] \<and>
   list_all (\<lambda>x. lower (snd x) = snd x) [(9 :: real, ''plants need''), (4, ''water'')] \<and>
   (\<exists>results combined.
      extract_keywords [(''plants'', 1 / 2), (''water'', 1 / 4)] (Some [(9, ''plants need''), (4, ''water'')])
        (Some [''Plants'', ''the light'', ''plants''])
        ''Plants need water. Plants need light and this soil.''
        [''Plants need water.'', ''Plants need light and this soil.''] 3 = Inr (results, combined) \<and>
      int (length combined) \<le> 3 \<and> distinct (map (\<lambda>x. lower (fst x)) combined))"
proof -
  have a: "(0::int) \<le> 3" by simp
  have b: "list_all (\<lambda>x. lower (fst x) = fst x) [(''plants'', 1 / 2 :: real), (''water'', 1 / 4)]"
    by code_simp
  have c: "list_all (\<lambda>x. lower (snd x) = snd x) [(9 :: real, ''plants need''), (4, ''water'')]"
    by code_simp
  have c': "case Some [(9 :: real, ''plants need''), (4, ''water'')] of
              None \<Rightarrow> True | Some r \<Rightarrow> list_all (\<lambda>x. lower (snd x) = snd x) r"
    using c by simp
  show ?thesis
    using combined_keywords_bounded_unique [OF a b c'] a b c by blast
qed
end
